theory Spec2Isabelle
  imports Complex_Main "HOL-Library.Sublist"
begin

section \<open>Numbers and data\<close>

text \<open>
  The source computes on Python and NumPy floating-point numbers. The embedding reads them
  as exact real numbers: rounding is not modelled, and where the source would produce a
  non-finite value or raise, the model says so explicitly (see \<open>py_error\<close> and
  \<open>overlap_gt\<close> below). The final conversion of the distance matrix to 32-bit floats is
  read as the identity.
\<close>

text \<open>
  A detection is the dictionary built in \<open>Distancing.__process\<close>: every one of the four
  geometric entries is a list of exactly four numbers there, so each is a 4-tuple here.
  \<open>centroid\<close> is \<open>(cx, cy, w, h)\<close> and \<open>bbox\<close> is \<open>(x0, y0, x1, y1)\<close>, both
  normalised; \<open>centroidReal\<close> and \<open>bboxReal\<close> are the same in pixels.
\<close>

type_synonym quad = "real \<times> real \<times> real \<times> real"

record detection =
  ident :: string
  centroid :: quad
  bbox :: quad
  centroidReal :: quad
  bboxReal :: quad

text \<open>Reading the components \<open>q[0]\<close>, \<open>q[1]\<close>, \<open>q[2]\<close>, \<open>q[3]\<close> of a four-element list.\<close>

fun q0 :: "quad \<Rightarrow> real" where "q0 (a, b, c, d) = a"
fun q1 :: "quad \<Rightarrow> real" where "q1 (a, b, c, d) = b"
fun q2 :: "quad \<Rightarrow> real" where "q2 (a, b, c, d) = c"
fun q3 :: "quad \<Rightarrow> real" where "q3 (a, b, c, d) = d"

datatype py_error = ZeroDivisionError | UnboundLocalError | AttributeError | RuntimeError
  | NonFinite

text \<open>
  \<open>[j for i, j in enumerate(object_list) if keep i]\<close>: the comprehension both
  post-processing steps end with.
\<close>

definition select_enumerated :: "(nat \<Rightarrow> bool) \<Rightarrow> 'a list \<Rightarrow> 'a list" where
  "select_enumerated keep object_list =
     map snd (filter (\<lambda>(i, j). keep i) (enumerate 0 object_list))"

section \<open>Detection post-processing\<close>

subsection \<open>Oversized-box rejection\<close>

definition large_boxes :: "detection list \<Rightarrow> nat list" where
  "large_boxes object_list =
     filter (\<lambda>i. q2 (centroid (object_list ! i)) * q3 (centroid (object_list ! i)) > 0.25)
       [0..<length object_list]"

definition ignore_large_boxes :: "detection list \<Rightarrow> detection list" where
  "ignore_large_boxes object_list =
     select_enumerated (\<lambda>i. i \<notin> set (large_boxes object_list)) object_list"

subsection \<open>Non-maximum suppression\<close>

text \<open>
  \<open>np.argsort(keys)\<close> returns the indices of \<open>keys\<close> in ascending order of their keys.
  The source calls it with the default sorting kind, which is not stable: the order among
  indices with equal keys is not fixed, and need not be the same from one array to the
  next. The sorting function is therefore an argument \<open>np_argsort\<close> of the model, and
  \<open>ascending_order keys idxs\<close> says that \<open>idxs\<close> is an answer \<open>np.argsort\<close> may give
  on \<open>keys\<close>: a permutation of all indices along which the keys do not decrease.
\<close>

definition ascending_order :: "real list \<Rightarrow> nat list \<Rightarrow> bool" where
  "ascending_order keys idxs =
     (sort idxs = [0..<length keys] \<and> sorted (map (\<lambda>i. keys ! i) idxs))"

text \<open>Two sorting functions within this contract. The first keeps equal keys in index
  order. The second returns them in reverse index order on arrays of length four and in
  index order on all others.\<close>

definition stable_argsort :: "real list \<Rightarrow> nat list" where
  "stable_argsort keys = sort_key (\<lambda>i. keys ! i) [0..<length keys]"

definition tie_reversing_argsort :: "real list \<Rightarrow> nat list" where
  "tie_reversing_argsort keys =
     (if length keys = 4 then rev (sort_key (\<lambda>i. - (keys ! i)) [0..<length keys])
      else stable_argsort keys)"

text \<open>\<open>np.where(overlap > overlapThresh)[0]\<close>: the positions whose flag is set.\<close>

definition np_where :: "bool list \<Rightarrow> nat list" where
  "np_where flags = filter (\<lambda>k. flags ! k) [0..<length flags]"

text \<open>\<open>np.delete(idxs, positions)\<close>: the array without the entries at these positions.\<close>

definition np_delete :: "'a list \<Rightarrow> nat list \<Rightarrow> 'a list" where
  "np_delete idxs positions = select_enumerated (\<lambda>k. k \<notin> set positions) idxs"

text \<open>
  \<open>(w * h) / area > overlapThresh\<close> in NumPy arithmetic. For a non-zero area this is the
  comparison of the real quotient. A division by zero raises nothing in NumPy: a positive
  numerator gives \<open>inf\<close>, which exceeds every threshold, and a zero numerator gives \<open>nan\<close>,
  which exceeds none. The numerator is a product of two clipped lengths, never negative.
\<close>

definition overlap_gt :: "real \<Rightarrow> real \<Rightarrow> real \<Rightarrow> bool" where
  "overlap_gt numerator area overlapThresh =
     (if area = 0 then numerator > 0 else numerator / area > overlapThresh)"

definition box_area :: "detection \<Rightarrow> real" where
  "box_area item = (q3 (centroid item) + 1) * (q2 (centroid item) + 1)"

definition sort_keys :: "detection list \<Rightarrow> real list" where
  "sort_keys object_list =
     map (\<lambda>item. q1 (centroid item) + q3 (centroid item) / 2) object_list"

text \<open>The overlap test of one loop iteration: picked box \<open>i\<close> against remaining box \<open>j\<close>.\<close>

definition suppresses :: "real \<Rightarrow> detection \<Rightarrow> detection \<Rightarrow> bool" where
  "suppresses overlapThresh a b =
     (let xx1 = max (q0 (bbox a)) (q0 (bbox b));
          yy1 = max (q1 (bbox a)) (q1 (bbox b));
          xx2 = min (q2 (bbox a)) (q2 (bbox b));
          yy2 = min (q3 (bbox a)) (q3 (bbox b));
          w = max 0 (xx2 - xx1 + 1);
          h = max 0 (yy2 - yy1 + 1)
      in overlap_gt (w * h) (box_area b) overlapThresh)"

lemma select_enumerated_snoc:
  "select_enumerated keep (xs @ [x]) =
     select_enumerated keep xs @ (if keep (length xs) then [x] else [])"
  by (simp add: select_enumerated_def enumerate_append_eq)

lemma select_enumerated_nth:
  "select_enumerated keep xs = map (\<lambda>i. xs ! i) (filter keep [0..<length xs])"
proof (induction xs rule: rev_induct)
  case Nil
  show ?case by (simp add: select_enumerated_def)
next
  case (snoc x xs)
  have "map (\<lambda>i. (xs @ [x]) ! i) (filter keep [0..<length xs])
        = map (\<lambda>i. xs ! i) (filter keep [0..<length xs])"
    by (rule map_cong) (auto simp: nth_append)
  with snoc show ?case
    by (simp add: select_enumerated_snoc)
qed

lemma np_delete_last_shorter:
  assumes "idxs \<noteq> []"
  shows "length (np_delete idxs ((length idxs - Suc 0) # ps)) < length idxs"
proof -
  let ?keep = "\<lambda>k. k \<notin> set ((length idxs - Suc 0) # ps)"
  from assms have "[0..<length idxs] = [0..<length idxs - Suc 0] @ [length idxs - Suc 0]"
    by (cases idxs rule: rev_cases) simp_all
  then have "filter ?keep [0..<length idxs] = filter ?keep [0..<length idxs - Suc 0]"
    by simp
  moreover have "length (filter ?keep [0..<length idxs - Suc 0]) \<le> length idxs - Suc 0"
    by (metis length_filter_le length_upt diff_zero)
  moreover from assms have "length idxs - Suc 0 < length idxs" by (cases idxs) simp_all
  ultimately show ?thesis by (simp add: np_delete_def select_enumerated_nth)
qed

function nms_loop :: "detection list \<Rightarrow> real \<Rightarrow> nat list \<Rightarrow> nat list \<Rightarrow> nat list" where
  "nms_loop object_list overlapThresh idxs pick =
     (if length idxs > 0 then
        (let last = length idxs - 1;
             i = idxs ! last;
             overlap = map (\<lambda>j. suppresses overlapThresh (object_list ! i) (object_list ! j))
                         (take last idxs)
         in nms_loop object_list overlapThresh
              (np_delete idxs ([last] @ np_where overlap)) (pick @ [i]))
      else pick)"
  by pat_completeness auto
termination
  by (relation "measure (\<lambda>(object_list, overlapThresh, idxs, pick). length idxs)")
     (auto intro: np_delete_last_shorter)

definition non_max_suppression_fast ::
  "(real list \<Rightarrow> nat list) \<Rightarrow> detection list \<Rightarrow> real \<Rightarrow> detection list" where
  "non_max_suppression_fast np_argsort object_list overlapThresh =
     (if length object_list = 0 then []
      else let idxs = np_argsort (sort_keys object_list);
               pick = nms_loop object_list overlapThresh idxs []
           in select_enumerated (\<lambda>i. i \<in> set pick) object_list)"

text \<open>
  The order in which the loop visits the indices: it always takes the last entry of
  \<open>idxs\<close>, so it reads the sorted indices from the largest key down.
\<close>

definition bottom_first :: "(real list \<Rightarrow> nat list) \<Rightarrow> detection list \<Rightarrow> nat list" where
  "bottom_first np_argsort object_list = rev (np_argsort (sort_keys object_list))"

text \<open>
  The greedy procedure in the words of the specification: repeatedly take the first
  undecided candidate as kept, drop every remaining candidate that the kept one
  suppresses, and continue until none remains.
\<close>

fun greedy_keep :: "('a \<Rightarrow> 'a \<Rightarrow> bool) \<Rightarrow> 'a list \<Rightarrow> 'a list" where
  "greedy_keep drops [] = []"
| "greedy_keep drops (i # rest) = i # greedy_keep drops (filter (\<lambda>j. \<not> drops i j) rest)"

text \<open>The two boxes of the specification's example.\<close>

definition box_A :: detection where
  "box_A = \<lparr>ident = ''A'', centroid = (0.2, 0.2, 0.2, 0.2), bbox = (0.1, 0.1, 0.3, 0.3),
            centroidReal = (128, 96, 128, 96), bboxReal = (64, 48, 192, 144)\<rparr>"

definition box_B :: detection where
  "box_B = \<lparr>ident = ''B'', centroid = (0.22, 0.22, 0.2, 0.2), bbox = (0.12, 0.12, 0.32, 0.32),
            centroidReal = (140.8, 105.6, 128, 96), bboxReal = (76.8, 57.6, 204.8, 153.6)\<rparr>"

text \<open>
  Four boxes with a tie: the first two have the same key \<open>cy + h / 2 = 1\<close>, the other two
  lie inside the second. \<open>normalised_box x0 y0 x1 y1\<close> is the detection that
  \<open>Distancing.__process\<close> builds at resolution 640 by 480 from the normalised corners.
\<close>

definition normalised_box :: "real \<Rightarrow> real \<Rightarrow> real \<Rightarrow> real \<Rightarrow> detection" where
  "normalised_box x0 y0 x1 y1 =
     \<lparr>ident = ''person-0'', centroid = ((x0 + x1) / 2, (y0 + y1) / 2, x1 - x0, y1 - y0),
      bbox = (x0, y0, x1, y1),
      centroidReal = ((x0 + x1) * 640 / 2, (y0 + y1) * 480 / 2, (x1 - x0) * 640, (y1 - y0) * 480),
      bboxReal = (x0 * 640, y0 * 480, x1 * 640, y1 * 480)\<rparr>"

definition tied_0 :: detection where
  "tied_0 = normalised_box 0.75 0.75 0.875 1"

definition tied_1 :: detection where
  "tied_1 = normalised_box 0 0.5 0.5 1"

definition inner_2 :: detection where
  "inner_2 = normalised_box 0.1 0.55 0.3 0.75"

definition inner_3 :: detection where
  "inner_3 = normalised_box 0.1 0.675 0.3 0.875"

definition tied_boxes :: "detection list" where
  "tied_boxes = [tied_0, tied_1, inner_2, inner_3]"

section \<open>Distances between tracked objects\<close>

subsection \<open>The pinhole estimate for two corresponding points\<close>

text \<open>
  A point is the list \<open>[x, y, h]\<close>: a pixel position together with the height of its box.
  The homography \<open>h_inv\<close> is a 3-by-3 array, here the triple of its rows.
\<close>

type_synonym point3 = "real \<times> real \<times> real"
type_synonym mat3 = "point3 \<times> point3 \<times> point3"

text \<open>
  \<open>calculate_distance_of_two_points_of_boxes\<close>. The quotients \<open>1 / h1\<close> and \<open>1 / h2\<close> are
  Python divisions: a zero height raises \<open>ZeroDivisionError\<close>. (Were the heights NumPy
  scalars, the quotient would be infinite and the result infinite or not a number; the
  model reports the division by zero in both readings.)
\<close>

definition calculate_distance_of_two_points_of_boxes :: "point3 \<Rightarrow> point3 \<Rightarrow> py_error + real" where
  "calculate_distance_of_two_points_of_boxes first_point second_point =
     (case first_point of (xc1, yc1, h1) \<Rightarrow>
      case second_point of (xc2, yc2, h2) \<Rightarrow>
        let dx = xc2 - xc1;
            dy = yc2 - yc1
        in if h1 = 0 \<or> h2 = 0 then Inl ZeroDivisionError
           else let lx = dx * 170 * (1 / h1 + 1 / h2) / 2;
                    ly = dy * 170 * (1 / h1 + 1 / h2) / 2
                in Inr (sqrt (lx\<^sup>2 + ly\<^sup>2)))"

subsection \<open>The pairwise loop\<close>

text \<open>
  The branch \<open>dist_method == 'FourCornerPointsDistance'\<close> of the inner loop body, for the
  boxes \<open>a = nn_out[i]\<close> and \<open>b = nn_out[j]\<close>. The four calls are made in this order, and
  the first one that raises ends the computation.
\<close>

definition four_corner_distance :: "detection \<Rightarrow> detection \<Rightarrow> py_error + real" where
  "four_corner_distance a b =
     (let lower_left_of_first_box = (q0 (bboxReal a), q1 (bboxReal a), q3 (centroidReal a));
          lower_right_of_first_box = (q2 (bboxReal a), q1 (bboxReal a), q3 (centroidReal a));
          upper_left_of_first_box = (q0 (bboxReal a), q3 (bboxReal a), q3 (centroidReal a));
          upper_right_of_first_box = (q2 (bboxReal a), q3 (bboxReal a), q3 (centroidReal a));
          lower_left_of_second_box = (q0 (bboxReal b), q1 (bboxReal b), q3 (centroidReal b));
          lower_right_of_second_box = (q2 (bboxReal b), q1 (bboxReal b), q3 (centroidReal b));
          upper_left_of_second_box = (q0 (bboxReal b), q3 (bboxReal b), q3 (centroidReal b));
          upper_right_of_second_box = (q2 (bboxReal b), q3 (bboxReal b), q3 (centroidReal b))
      in case calculate_distance_of_two_points_of_boxes
                lower_left_of_first_box lower_left_of_second_box of
           Inl e \<Rightarrow> Inl e
         | Inr l1 \<Rightarrow>
        (case calculate_distance_of_two_points_of_boxes
                lower_right_of_first_box lower_right_of_second_box of
           Inl e \<Rightarrow> Inl e
         | Inr l2 \<Rightarrow>
        (case calculate_distance_of_two_points_of_boxes
                upper_left_of_first_box upper_left_of_second_box of
           Inl e \<Rightarrow> Inl e
         | Inr l3 \<Rightarrow>
        (case calculate_distance_of_two_points_of_boxes
                upper_right_of_first_box upper_right_of_second_box of
           Inl e \<Rightarrow> Inl e
         | Inr l4 \<Rightarrow> Inr (min l1 (min l2 (min l3 l4)))))))"

text \<open>The branch \<open>dist_method == 'CenterPointsDistance'\<close> of the inner loop body.\<close>

definition center_distance :: "detection \<Rightarrow> detection \<Rightarrow> py_error + real" where
  "center_distance a b =
     (let center_of_first_box =
            (q0 (centroidReal a), q1 (centroidReal a), q3 (centroidReal a));
          center_of_second_box =
            (q0 (centroidReal b), q1 (centroidReal b), q3 (centroidReal b))
      in calculate_distance_of_two_points_of_boxes center_of_first_box center_of_second_box)"

text \<open>
  One pass through the body of the inner loop: the value of the local variable \<open>l\<close> that
  is appended to the row. The variable is a local of the whole function, so under a method
  name that matches neither branch it keeps the value of the previous pass; \<open>None\<close> stands
  for the variable not being bound yet.
\<close>

definition box_distance_step ::
  "string \<Rightarrow> detection list \<Rightarrow> nat \<Rightarrow> nat \<Rightarrow> real option \<Rightarrow> py_error + real" where
  "box_distance_step dist_method nn_out i j l =
     (if i = j then Inr 0
      else if dist_method = ''FourCornerPointsDistance'' then
        four_corner_distance (nn_out ! i) (nn_out ! j)
      else if dist_method = ''CenterPointsDistance'' then
        center_distance (nn_out ! i) (nn_out ! j)
      else (case l of None \<Rightarrow> Inl UnboundLocalError | Some v \<Rightarrow> Inr v))"

text \<open>\<open>for j in range(len(nn_out))\<close>, over the indices still to visit.\<close>

fun distance_row_loop ::
  "string \<Rightarrow> detection list \<Rightarrow> nat \<Rightarrow> nat list \<Rightarrow> real option \<Rightarrow> real list
     \<Rightarrow> py_error + (real option \<times> real list)" where
  "distance_row_loop dist_method nn_out i [] l distance_row = Inr (l, distance_row)"
| "distance_row_loop dist_method nn_out i (j # js) l distance_row =
     (case box_distance_step dist_method nn_out i j l of
        Inl e \<Rightarrow> Inl e
      | Inr v \<Rightarrow> distance_row_loop dist_method nn_out i js (Some v) (distance_row @ [v]))"

text \<open>\<open>for i in range(len(nn_out))\<close>, over the indices still to visit.\<close>

fun distances_loop ::
  "string \<Rightarrow> detection list \<Rightarrow> nat list \<Rightarrow> real option \<Rightarrow> real list list
     \<Rightarrow> py_error + real list list" where
  "distances_loop dist_method nn_out [] l distances = Inr distances"
| "distances_loop dist_method nn_out (i # is) l distances =
     (case distance_row_loop dist_method nn_out i [0..<length nn_out] l [] of
        Inl e \<Rightarrow> Inl e
      | Inr (l', distance_row) \<Rightarrow>
          distances_loop dist_method nn_out is l' (distances @ [distance_row]))"

subsection \<open>The calibrated method\<close>

text \<open>Python's \<open>int\<close> on a float: truncation towards zero.\<close>

definition py_int :: "real \<Rightarrow> int" where
  "py_int x = (if 0 \<le> x then \<lfloor>x\<rfloor> else \<lceil>x\<rceil>)"

text \<open>\<open>np.matmul\<close> of a 3-by-3 array and a vector of length 3.\<close>

definition matmul :: "mat3 \<Rightarrow> point3 \<Rightarrow> point3" where
  "matmul h p =
     (case h of (r0, r1, r2) \<Rightarrow>
      case p of (p0, p1, p2) \<Rightarrow>
        let dot = (\<lambda>r. case r of (a, b, c) \<Rightarrow> a * p0 + b * p1 + c * p2)
        in (dot r0, dot r1, dot r2))"

text \<open>The array \<open>floor_point\<close> built in the first line of \<open>transform_to_world_coordinate\<close>.\<close>

definition floor_point :: "detection \<Rightarrow> point3" where
  "floor_point obj =
     (real_of_int (py_int ((q0 (bboxReal obj) + q2 (bboxReal obj)) / 2)),
      q3 (bboxReal obj), 1)"

text \<open>
  \<open>transform_to_world_coordinate\<close>. The division by the last component is a NumPy division:
  a zero divisor raises nothing and gives infinite or not-a-number components. Exact reals
  have no such values, so the model reports this case as \<open>NonFinite\<close>.
\<close>

definition transform_to_world_coordinate :: "mat3 \<Rightarrow> detection \<Rightarrow> py_error + (real \<times> real)" where
  "transform_to_world_coordinate h_inv obj =
     (let floor_world_point = matmul h_inv (floor_point obj)
      in case floor_world_point of (X, Y, W) \<Rightarrow>
           if W = 0 then Inl NonFinite else Inr (X / W, Y / W))"

text \<open>
  \<open>scipy.spatial.distance.cdist\<close> with its default metric: the table of Euclidean distances
  between the rows of its two arguments.
\<close>

definition euclidean :: "real \<times> real \<Rightarrow> real \<times> real \<Rightarrow> real" where
  "euclidean u v = sqrt ((fst u - fst v)\<^sup>2 + (snd u - snd v)\<^sup>2)"

definition cdist :: "(real \<times> real) list \<Rightarrow> (real \<times> real) list \<Rightarrow> real list list" where
  "cdist XA XB = map (\<lambda>u. map (\<lambda>v. euclidean u v) XB) XA"

text \<open>A list comprehension over calls that may fail: the first failure ends it.\<close>

fun collect :: "(py_error + 'a) list \<Rightarrow> py_error + 'a list" where
  "collect [] = Inr []"
| "collect (r # rs) =
     (case r of
        Inl e \<Rightarrow> Inl e
      | Inr v \<Rightarrow> (case collect rs of Inl e \<Rightarrow> Inl e | Inr vs \<Rightarrow> Inr (v # vs)))"

subsection \<open>The distance matrix\<close>

text \<open>
  \<open>calculate_box_distances\<close>, with the attributes \<open>self.dist_method\<close> and \<open>self.h_inv\<close> as
  arguments. The matrix is the list of its rows; the empty array is the empty list.
\<close>

definition calculate_box_distances ::
  "string \<Rightarrow> mat3 \<Rightarrow> detection list \<Rightarrow> py_error + real list list" where
  "calculate_box_distances dist_method h_inv nn_out =
     (if dist_method = ''CalibratedDistance'' then
        (case collect (map (transform_to_world_coordinate h_inv) nn_out) of
           Inl e \<Rightarrow> Inl e
         | Inr world_coordinate_points \<Rightarrow>
             if length world_coordinate_points = 0 then Inr []
             else Inr (cdist world_coordinate_points world_coordinate_points))
      else distances_loop dist_method nn_out [0..<length nn_out] None [])"

subsection \<open>The specification's formulas and examples\<close>

text \<open>
  The pinhole formula as the specification writes it, for two points \<open>(x1, y1, h1)\<close> and
  \<open>(x2, y2, h2)\<close>.
\<close>

definition pinhole :: "point3 \<Rightarrow> point3 \<Rightarrow> real" where
  "pinhole p q =
     (case p of (x1, y1, h1) \<Rightarrow> case q of (x2, y2, h2) \<Rightarrow>
        sqrt (((x2 - x1) * 170 * (1 / h1 + 1 / h2) / 2)\<^sup>2
            + ((y2 - y1) * 170 * (1 / h1 + 1 / h2) / 2)\<^sup>2))"

definition center_value :: "detection \<Rightarrow> detection \<Rightarrow> real" where
  "center_value a b =
     pinhole (q0 (centroidReal a), q1 (centroidReal a), q3 (centroidReal a))
             (q0 (centroidReal b), q1 (centroidReal b), q3 (centroidReal b))"

definition four_corner_value :: "detection \<Rightarrow> detection \<Rightarrow> real" where
  "four_corner_value a b =
     min (pinhole (q0 (bboxReal a), q1 (bboxReal a), q3 (centroidReal a))
                  (q0 (bboxReal b), q1 (bboxReal b), q3 (centroidReal b)))
    (min (pinhole (q2 (bboxReal a), q1 (bboxReal a), q3 (centroidReal a))
                  (q2 (bboxReal b), q1 (bboxReal b), q3 (centroidReal b)))
    (min (pinhole (q0 (bboxReal a), q3 (bboxReal a), q3 (centroidReal a))
                  (q0 (bboxReal b), q3 (bboxReal b), q3 (centroidReal b)))
         (pinhole (q2 (bboxReal a), q3 (bboxReal a), q3 (centroidReal a))
                  (q2 (bboxReal b), q3 (bboxReal b), q3 (centroidReal b)))))"

definition pair_value :: "string \<Rightarrow> detection \<Rightarrow> detection \<Rightarrow> real" where
  "pair_value dist_method a b =
     (if dist_method = ''FourCornerPointsDistance'' then four_corner_value a b
      else center_value a b)"

text \<open>
  Projection of a homogeneous point through a homography, written out: the third
  component of the product of matrix and point is the homogeneous coordinate, and the
  projected point is the first two components divided by it.
\<close>

definition homogeneous_coordinate :: "mat3 \<Rightarrow> point3 \<Rightarrow> real" where
  "homogeneous_coordinate h p =
     (case h of ((a, b, c), (d, e, f), (g, k, l)) \<Rightarrow>
      case p of (x, y, z) \<Rightarrow> g * x + k * y + l * z)"

definition project :: "mat3 \<Rightarrow> point3 \<Rightarrow> real \<times> real" where
  "project h p =
     (case h of ((a, b, c), (d, e, f), (g, k, l)) \<Rightarrow>
      case p of (x, y, z) \<Rightarrow>
        ((a * x + b * y + c * z) / (g * x + k * y + l * z),
         (d * x + e * y + f * z) / (g * x + k * y + l * z)))"

text \<open>
  The bottom-centre point of a box in the words of the specification,
  \<open>((x0 + x2) / 2, y1, 1)\<close> with \<open>x0\<close>, \<open>x2\<close> the left and right pixel coordinates and
  \<open>y1\<close> the bottom one, and the same point with its first coordinate truncated towards
  zero to a whole pixel.
\<close>

definition spec_floor_point :: "detection \<Rightarrow> point3" where
  "spec_floor_point obj =
     ((q0 (bboxReal obj) + q2 (bboxReal obj)) / 2, q3 (bboxReal obj), 1)"

definition truncated_floor_point :: "detection \<Rightarrow> point3" where
  "truncated_floor_point obj =
     (let c = (q0 (bboxReal obj) + q2 (bboxReal obj)) / 2
      in (real_of_int (if 0 \<le> c then \<lfloor>c\<rfloor> else \<lceil>c\<rceil>), q3 (bboxReal obj), 1))"

text \<open>
  No division of the chosen method is a division by zero on this list: every box has a
  non-zero pixel height (pairwise methods), every projected point a non-zero homogeneous
  coordinate (calibrated method).
\<close>

definition can_divide :: "string \<Rightarrow> mat3 \<Rightarrow> detection list \<Rightarrow> bool" where
  "can_divide dist_method h_inv nn_out =
     (if dist_method = ''CalibratedDistance''
      then list_all (\<lambda>obj. homogeneous_coordinate h_inv (truncated_floor_point obj) \<noteq> 0) nn_out
      else list_all (\<lambda>obj. q3 (centroidReal obj) \<noteq> 0) nn_out)"

text \<open>An \<open>n\<close>-by-\<open>n\<close> matrix with zero diagonal, equal to its transpose.\<close>

definition is_distance_matrix :: "nat \<Rightarrow> real list list \<Rightarrow> bool" where
  "is_distance_matrix n m =
     (length m = n \<and>
      list_all (\<lambda>i. length (m ! i) = n \<and> m ! i ! i = 0 \<and>
                     list_all (\<lambda>j. m ! i ! j = m ! j ! i) [0..<n]) [0..<n])"

text \<open>
  Example data. \<open>px_box cx cy w h\<close> is the detection that \<open>Distancing.__process\<close> builds at
  resolution 640 by 480 for a box with pixel centre \<open>(cx, cy)\<close>, width \<open>w\<close> and height \<open>h\<close>.
\<close>

definition identity_h :: mat3 where
  "identity_h = ((1, 0, 0), (0, 1, 0), (0, 0, 1))"

definition px_box :: "real \<Rightarrow> real \<Rightarrow> real \<Rightarrow> real \<Rightarrow> detection" where
  "px_box cx cy w h =
     \<lparr>ident = ''person-0'', centroid = (cx / 640, cy / 480, w / 640, h / 480),
      bbox = ((cx - w / 2) / 640, (cy - h / 2) / 480, (cx + w / 2) / 640, (cy + h / 2) / 480),
      centroidReal = (cx, cy, w, h),
      bboxReal = (cx - w / 2, cy - h / 2, cx + w / 2, cy + h / 2)\<rparr>"

definition flat_pair :: "detection list" where
  "flat_pair = [px_box 0 0 50 0, px_box 100 0 50 0]"

definition tall_pair :: "detection list" where
  "tall_pair = [px_box 0 0 50 100, px_box 100 0 50 100]"

definition odd_box :: detection where
  "odd_box = px_box 12.5 20 5 40"

definition far_pair :: "detection list" where
  "far_pair = [px_box 12.5 20 5 40, px_box 100.5 20 5 40]"

section \<open>Starting and stopping video processing\<close>

text \<open>
  The attributes of a \<open>Distancing\<close> object that \<open>process_video\<close> reads and writes. The
  attribute \<open>detector\<close> is \<open>None\<close> after construction, holds a detector (here: its name)
  once one is loaded, and is removed by \<open>del self.detector\<close> at the end of a run.
\<close>

datatype detector_attribute = Deleted | Is_None | Loaded string

record distancing =
  device :: string
  detector :: detector_attribute
  running_video :: bool

text \<open>The state \<open>__init__\<close> leaves, for the configured device.\<close>

definition init :: "string \<Rightarrow> distancing" where
  "init dev = \<lparr>device = dev, detector = Is_None, running_video = False\<rparr>"

text \<open>
  What the world outside does during one call. \<open>new_detector\<close> is the result of importing
  and constructing the detector: an exception or a detector. \<open>source_opens\<close> is the answer
  of \<open>input_cap.isOpened()\<close> right after \<open>cv.VideoCapture(video_uri)\<close>, \<open>writers_open\<close>
  says whether both \<open>gstreamer_writer\<close> calls return. \<open>ticks\<close> is the observed part of
  the frame loop, one entry per evaluation of the loop condition: whether the capture is
  still open, whether \<open>stop_process_video\<close> has been called from outside since the last
  evaluation, and what reading and processing the next frame gives.
\<close>

datatype frame_result = Empty_Frame | Good_Frame | Processing_Raises py_error

record tick =
  cap_open :: bool
  stop_requested :: bool
  frame :: frame_result

record environment =
  new_detector :: "py_error + string"
  source_opens :: bool
  writers_open :: bool
  ticks :: "tick list"

text \<open>What a call prints, logs and does, in order.\<close>

datatype event = Print_Device | Print_Detector | Print_Image_Size
  | Log_Opened | Log_Failed_To_Load | Frame_Processed | Frame_Skipped | Released

text \<open>
  How a call ends: it returns, it raises, or the frame loop is still going when the
  observed ticks end.
\<close>

datatype outcome = Returned | Raised py_error | Still_Running

definition stop_process_video :: "distancing \<Rightarrow> distancing" where
  "stop_process_video self = self\<lparr>running_video := False\<rparr>"

text \<open>
  The \<open>if\<close>/\<open>elif\<close> chain on \<open>self.device\<close> that opens \<open>process_video\<close>: each of the four
  known devices constructs its detector, any other device leaves the attribute as it is.
\<close>

definition load_detector :: "environment \<Rightarrow> distancing \<Rightarrow> py_error + distancing" where
  "load_detector env self =
     (if device self = ''Jetson'' \<or> device self = ''EdgeTPU'' \<or> device self = ''Dummy''
         \<or> device self = ''x86''
      then (case new_detector env of
              Inl e \<Rightarrow> Inl e
            | Inr d \<Rightarrow> Inr (self\<lparr>detector := Loaded d\<rparr>))
      else Inr self)"

text \<open>
  The three \<open>print\<close> calls under \<open>if self.device != 'Dummy'\<close>. The second reads
  \<open>self.detector.name\<close>, which raises \<open>AttributeError\<close> when no detector is loaded.
\<close>

definition announce :: "distancing \<Rightarrow> (py_error \<times> event list) + event list" where
  "announce self =
     (if device self \<noteq> ''Dummy'' then
        (case detector self of
           Loaded d \<Rightarrow> Inr [Print_Device, Print_Detector, Print_Image_Size]
         | _ \<Rightarrow> Inl (AttributeError, [Print_Device]))
      else Inr [])"

text \<open>
  \<open>while input_cap.isOpened() and self.running_video\<close>, and the four statements after the
  loop. The loop has no bound of its own; it is followed along the observed ticks.
\<close>

fun frame_loop :: "tick list \<Rightarrow> distancing \<Rightarrow> event list \<Rightarrow> outcome \<times> distancing \<times> event list" where
  "frame_loop [] self trace = (Still_Running, self, trace)"
| "frame_loop (t # ts) self trace =
     (let self = (if stop_requested t then stop_process_video self else self)
      in if cap_open t \<and> running_video self then
           (case frame t of
              Good_Frame \<Rightarrow> frame_loop ts self (trace @ [Frame_Processed])
            | Empty_Frame \<Rightarrow> frame_loop ts self (trace @ [Frame_Skipped])
            | Processing_Raises e \<Rightarrow> (Raised e, self, trace))
         else (Returned, self\<lparr>detector := Deleted, running_video := False\<rparr>,
               trace @ [Released]))"

definition process_video :: "environment \<Rightarrow> distancing \<Rightarrow> outcome \<times> distancing \<times> event list" where
  "process_video env self =
     (case load_detector env self of
        Inl e \<Rightarrow> (Raised e, self, [])
      | Inr self \<Rightarrow>
          (case announce self of
             Inl (e, trace) \<Rightarrow> (Raised e, self, trace)
           | Inr trace \<Rightarrow>
               if source_opens env then
                 (let trace = trace @ [Log_Opened];
                      self = self\<lparr>running_video := True\<rparr>
                  in if writers_open env then frame_loop (ticks env) self trace
                     else (Raised RuntimeError, self, trace))
               else (Returned, self, trace @ [Log_Failed_To_Load])))"

text \<open>The call gets as far as opening the source: nothing before that raises.\<close>

definition reaches_source :: "environment \<Rightarrow> distancing \<Rightarrow> bool" where
  "reaches_source env self =
     (case load_detector env self of
        Inl e \<Rightarrow> False
      | Inr self \<Rightarrow> (case announce self of Inl x \<Rightarrow> False | Inr trace \<Rightarrow> True))"

text \<open>Two example environments: a source that does not open, and a short video.\<close>

definition failing_source :: environment where
  "failing_source = \<lparr>new_detector = Inr ''ssd_mobilenet'', source_opens = False,
       writers_open = True, ticks = []\<rparr>"

definition two_frames :: environment where
  "two_frames = \<lparr>new_detector = Inr ''ssd_mobilenet'', source_opens = True,
       writers_open = True,
       ticks = [\<lparr>cap_open = True, stop_requested = False, frame = Good_Frame\<rparr>,
                \<lparr>cap_open = True, stop_requested = False, frame = Empty_Frame\<rparr>,
                \<lparr>cap_open = False, stop_requested = False, frame = Empty_Frame\<rparr>]\<rparr>"

section \<open>Restarting the processor from the API\<close>








section \<open>Facts about the list comprehension\<close>

lemma select_enumerated_filter:
  "select_enumerated (\<lambda>i. Q (xs ! i)) xs = filter Q xs"
proof -
  have "map (\<lambda>i. xs ! i) (filter (\<lambda>i. Q (xs ! i)) [0..<length xs])
        = filter Q (map (\<lambda>i. xs ! i) [0..<length xs])"
    by (simp add: filter_map comp_def)
  then show ?thesis by (simp add: select_enumerated_nth map_nth)
qed

lemma select_enumerated_cong:
  assumes "\<And>i. i < length xs \<Longrightarrow> keep i = keep' i"
  shows "select_enumerated keep xs = select_enumerated keep' xs"
proof -
  have "filter keep [0..<length xs] = filter keep' [0..<length xs]"
    by (rule filter_cong) (auto simp: assms)
  then show ?thesis by (simp add: select_enumerated_nth)
qed

lemma select_enumerated_subseq: "subseq (select_enumerated keep xs) xs"
proof -
  have "subseq (map (\<lambda>i. xs ! i) (filter keep [0..<length xs])) (map (\<lambda>i. xs ! i) [0..<length xs])"
    by (rule subseq_map) (rule subseq_filter_left)
  then show ?thesis by (simp add: select_enumerated_nth map_nth)
qed

section \<open>The suppression loop is the greedy procedure\<close>

lemma np_where_map_set:
  "k \<in> set (np_where (map P ys)) \<longleftrightarrow> k < length ys \<and> P (ys ! k)"
  by (auto simp: np_where_def)

lemma np_delete_snoc:
  "np_delete (ys @ [y]) ([length ys] @ np_where (map P ys)) = filter (\<lambda>j. \<not> P j) ys"
proof -
  let ?keep = "\<lambda>k. k \<notin> set ([length ys] @ np_where (map P ys))"
  have "np_delete (ys @ [y]) ([length ys] @ np_where (map P ys))
        = select_enumerated ?keep ys @ (if ?keep (length ys) then [y] else [])"
    unfolding np_delete_def by (rule select_enumerated_snoc)
  also have "\<dots> = select_enumerated ?keep ys" by simp
  also have "\<dots> = select_enumerated (\<lambda>k. \<not> P (ys ! k)) ys"
    by (rule select_enumerated_cong) (simp add: np_where_map_set)
  also have "\<dots> = filter (\<lambda>j. \<not> P j) ys"
    by (rule select_enumerated_filter)
  finally show ?thesis .
qed

lemma nms_loop_snoc:
  "nms_loop object_list t (ys @ [y]) pick =
     nms_loop object_list t
       (filter (\<lambda>j. \<not> suppresses t (object_list ! y) (object_list ! j)) ys) (pick @ [y])"
proof -
  have "nms_loop object_list t (ys @ [y]) pick =
     nms_loop object_list t
       (np_delete (ys @ [y]) ([length ys] @
          np_where (map (\<lambda>j. suppresses t (object_list ! y) (object_list ! j)) ys)))
       (pick @ [y])"
    by (subst nms_loop.simps) (simp add: Let_def)
  then show ?thesis by (simp only: np_delete_snoc)
qed

lemma nms_loop_Nil: "nms_loop object_list t [] pick = pick"
  by (subst nms_loop.simps) simp

lemma nms_loop_greedy:
  "nms_loop object_list t idxs pick =
     pick @ greedy_keep (\<lambda>i j. suppresses t (object_list ! i) (object_list ! j)) (rev idxs)"
proof (induction "length idxs" arbitrary: idxs pick rule: less_induct)
  case less
  show ?case
  proof (cases idxs rule: rev_cases)
    case Nil
    then show ?thesis by (simp add: nms_loop_Nil)
  next
    case (snoc ys y)
    let ?f = "filter (\<lambda>j. \<not> suppresses t (object_list ! y) (object_list ! j)) ys"
    have "length ?f < length idxs" using snoc by (simp add: less_Suc_eq_le)
    from less [OF this] show ?thesis
      unfolding snoc nms_loop_snoc by (simp add: rev_filter)
  qed
qed

lemma non_max_suppression_fast_greedy:
  "non_max_suppression_fast np_argsort object_list t =
     select_enumerated
       (\<lambda>i. i \<in> set (greedy_keep (\<lambda>i j. suppresses t (object_list ! i) (object_list ! j))
                       (bottom_first np_argsort object_list)))
       object_list"
proof (cases "length object_list = 0")
  case True
  then show ?thesis by (simp add: non_max_suppression_fast_def select_enumerated_def)
next
  case False
  then show ?thesis
    unfolding non_max_suppression_fast_def Let_def bottom_first_def nms_loop_greedy
    by simp
qed

lemma bottom_first_perm:
  "set (bottom_first stable_argsort object_list) = {0..<length object_list} \<and> distinct (bottom_first stable_argsort object_list)"
  by (simp add: bottom_first_def stable_argsort_def sort_keys_def)

lemma bottom_first_descending:
  "sorted_wrt (\<lambda>i j. sort_keys object_list ! i \<ge> sort_keys object_list ! j)
     (bottom_first stable_argsort object_list)"
proof -
  have "sorted (map (\<lambda>i. sort_keys object_list ! i) (stable_argsort (sort_keys object_list)))"
    unfolding stable_argsort_def by (rule sorted_sort_key)
  then show ?thesis
    by (simp add: bottom_first_def sorted_wrt_rev sorted_map)
qed

lemma greedy_keep_subseq: "subseq (greedy_keep d xs) xs"
proof (induction d xs rule: greedy_keep.induct)
  case (1 d)
  show ?case by simp
next
  case (2 d i rest)
  have "subseq (filter (\<lambda>j. \<not> d i j) rest) rest" by (rule subseq_filter_left)
  with 2 have "subseq (greedy_keep d (filter (\<lambda>j. \<not> d i j) rest)) rest"
    by (rule subseq_order.trans)
  then show ?case by simp
qed

lemma greedy_keep_set: "set (greedy_keep d xs) \<subseteq> set xs"
proof (induction d xs rule: greedy_keep.induct)
  case (1 d)
  show ?case by simp
next
  case (2 d i rest)
  then show ?case by auto
qed

lemma greedy_keep_pairwise: "sorted_wrt (\<lambda>i j. \<not> d i j) (greedy_keep d xs)"
proof (induction d xs rule: greedy_keep.induct)
  case (1 d)
  show ?case by simp
next
  case (2 d i rest)
  let ?ys = "filter (\<lambda>j. \<not> d i j) rest"
  have sub: "set (greedy_keep d ?ys) \<subseteq> set ?ys" by (rule greedy_keep_set)
  have "\<forall>j \<in> set (greedy_keep d ?ys). \<not> d i j"
  proof
    fix j assume "j \<in> set (greedy_keep d ?ys)"
    with sub have "j \<in> set ?ys" by blast
    then show "\<not> d i j" by simp
  qed
  moreover note "2.IH"
  ultimately show ?case
    unfolding greedy_keep.simps sorted_wrt.simps by blast
qed

lemma greedy_keep_all:
  "sorted_wrt (\<lambda>i j. \<not> d i j) xs \<Longrightarrow> greedy_keep d xs = xs"
proof (induction xs)
  case Nil
  show ?case by simp
next
  case (Cons i rest)
  then have "filter (\<lambda>j. \<not> d i j) rest = rest" by (simp add: filter_id_conv)
  with Cons show ?case by simp
qed

lemma subseq_set_mono: "subseq xs ys \<Longrightarrow> set xs \<subseteq> set ys"
  by (induction rule: list_emb.induct) auto

lemma subseq_filter_member:
  "subseq ys xs \<Longrightarrow> distinct xs \<Longrightarrow> filter (\<lambda>x. x \<in> set ys) xs = ys"
proof (induction rule: list_emb.induct)
  case (list_emb_Nil ys)
  show ?case by simp
next
  case (list_emb_Cons xs ys y)
  from list_emb_Cons.hyps have "set xs \<subseteq> set ys" by (rule subseq_set_mono)
  moreover from list_emb_Cons.prems have "y \<notin> set ys" by simp
  ultimately have "y \<notin> set xs" by blast
  moreover from list_emb_Cons have "filter (\<lambda>x. x \<in> set xs) ys = xs" by simp
  ultimately show ?case by simp
next
  case (list_emb_Cons2 x y xs ys)
  from list_emb_Cons2.prems have "y \<notin> set ys" by simp
  then have "filter (\<lambda>a. a = y \<or> a \<in> set xs) ys = filter (\<lambda>a. a \<in> set xs) ys"
    by (intro filter_cong) auto
  moreover from list_emb_Cons2 have "filter (\<lambda>a. a \<in> set xs) ys = xs" by simp
  moreover note \<open>x = y\<close>
  ultimately show ?case by simp
qed

lemma insort_key_map:
  "map g (insort_key (\<lambda>a. f (g a)) x xs) = insort_key f (g x) (map g xs)"
  by (induction xs) simp_all

lemma sort_key_map:
  "map g (sort_key (\<lambda>a. f (g a)) xs) = sort_key f (map g xs)"
  by (induction xs) (simp_all add: insort_key_map)

lemma insort_key_cong_set:
  "f x = g x \<Longrightarrow> (\<And>y. y \<in> set xs \<Longrightarrow> f y = g y) \<Longrightarrow> insort_key f x xs = insort_key g x xs"
  by (induction xs) simp_all

lemma sort_key_cong_set:
  "(\<And>y. y \<in> set xs \<Longrightarrow> f y = g y) \<Longrightarrow> sort_key f xs = sort_key g xs"
proof (induction xs)
  case Nil
  show ?case by simp
next
  case (Cons x xs)
  then have "sort_key f xs = sort_key g xs" by simp
  moreover have "insort_key f x (sort_key g xs) = insort_key g x (sort_key g xs)"
    by (rule insort_key_cong_set) (simp_all add: Cons.prems)
  ultimately show ?case by simp
qed

lemma select_enumerated_all:
  assumes "\<And>i. i < length xs \<Longrightarrow> keep i"
  shows "select_enumerated keep xs = xs"
proof -
  have "select_enumerated keep xs = select_enumerated (\<lambda>i. True) xs"
    by (rule select_enumerated_cong) (simp add: assms)
  then show ?thesis by (simp add: select_enumerated_nth map_nth)
qed

lemma sort_keys_nth:
  "i < length object_list \<Longrightarrow>
     sort_keys object_list ! i =
       q1 (centroid (object_list ! i)) + q3 (centroid (object_list ! i)) / 2"
  by (simp add: sort_keys_def)

section \<open>Answers of the sorting function\<close>

lemma ascending_order_perm:
  assumes "ascending_order keys idxs"
  shows "set idxs = {0..<length keys}" and "distinct idxs"
proof -
  from assms have s: "sort idxs = [0..<length keys]" by (simp add: ascending_order_def)
  have "set idxs = set (sort idxs)" by simp
  also have "\<dots> = {0..<length keys}" by (simp only: s set_upt)
  finally show "set idxs = {0..<length keys}" .
  have "distinct (sort idxs)" by (simp only: s distinct_upt)
  then show "distinct idxs" by simp
qed

lemma ascending_order_sorted:
  "ascending_order keys idxs \<Longrightarrow> sorted (map (\<lambda>i. keys ! i) idxs)"
  by (simp add: ascending_order_def)

lemma stable_argsort_ascending: "ascending_order keys (stable_argsort keys)"
proof -
  let ?s = "sort_key (\<lambda>i. keys ! i) [0..<length keys]"
  have "sort ?s = [0..<length keys]"
    by (rule sorted_distinct_set_unique) simp_all
  moreover have "sorted (map (\<lambda>i. keys ! i) ?s)" by (rule sorted_sort_key)
  ultimately show ?thesis by (simp add: ascending_order_def stable_argsort_def)
qed

lemma ascending_order_unique:
  assumes d: "distinct keys" and a: "ascending_order keys idxs"
  shows "idxs = stable_argsort keys"
proof -
  let ?f = "\<lambda>i. keys ! i"
  let ?s = "stable_argsort keys"
  have b: "ascending_order keys ?s" by (rule stable_argsort_ascending)
  have inj: "inj_on ?f {0..<length keys}"
    using d by (auto simp: inj_on_def nth_eq_iff_index_eq)
  have si: "set idxs = {0..<length keys}" and di: "distinct idxs"
    using a by (rule ascending_order_perm)+
  have ss: "set ?s = {0..<length keys}" and ds: "distinct ?s"
    using b by (rule ascending_order_perm)+
  have "map ?f idxs = map ?f ?s"
  proof (rule sorted_distinct_set_unique)
    show "sorted (map ?f idxs)" using a by (rule ascending_order_sorted)
    show "sorted (map ?f ?s)" using b by (rule ascending_order_sorted)
    show "distinct (map ?f idxs)" using di inj by (simp add: distinct_map si)
    show "distinct (map ?f ?s)" using ds inj by (simp add: distinct_map ss)
    show "set (map ?f idxs) = set (map ?f ?s)" by (simp add: si ss)
  qed
  moreover have "inj_on ?f (set idxs \<union> set ?s)" using inj by (simp add: si ss)
  ultimately show ?thesis by (simp only: inj_on_map_eq_map)
qed

lemma non_max_suppression_fast_cong:
  assumes "f (sort_keys object_list) = g (sort_keys object_list)"
  shows "non_max_suppression_fast f object_list t = non_max_suppression_fast g object_list t"
  using assms by (simp add: non_max_suppression_fast_def)

lemma sort_keys_subseq:
  "subseq ys xs \<Longrightarrow> subseq (sort_keys ys) (sort_keys xs)"
  unfolding sort_keys_def by (rule subseq_map)

lemma subseq_keeps_distinct: "subseq xs ys \<Longrightarrow> distinct ys \<Longrightarrow> distinct xs"
proof (induction rule: list_emb.induct)
  case (list_emb_Nil ys)
  show ?case by simp
next
  case (list_emb_Cons xs ys y)
  then show ?case by simp
next
  case (list_emb_Cons2 x y xs ys)
  from list_emb_Cons2.hyps(2) have "set xs \<subseteq> set ys" by (rule subseq_set_mono)
  with list_emb_Cons2 show ?case by auto
qed

lemma suppresses_explicit:
  "suppresses t a b =
     (let w = max 0 (min (q2 (bbox a)) (q2 (bbox b)) - max (q0 (bbox a)) (q0 (bbox b)) + 1);
          h = max 0 (min (q3 (bbox a)) (q3 (bbox b)) - max (q1 (bbox a)) (q1 (bbox b)) + 1);
          area = (q3 (centroid b) + 1) * (q2 (centroid b) + 1)
      in if area = 0 then w * h > 0 else w * h / area > t)"
  by (simp add: suppresses_def overlap_gt_def box_area_def Let_def)

lemma stable_argsort_idempotent:
  "non_max_suppression_fast stable_argsort (non_max_suppression_fast stable_argsort object_list t) t =
     non_max_suppression_fast stable_argsort object_list t"
proof -
  define n where "n = length object_list"
  define D where "D = (\<lambda>i j. suppresses t (object_list ! i) (object_list ! j))"
  define S where "S = greedy_keep D (bottom_first stable_argsort object_list)"
  define P where "P = filter (\<lambda>i. i \<in> set S) [0..<n]"
  define out where "out = non_max_suppression_fast stable_argsort object_list t"
  define m where "m = length P"
  define D2 where "D2 = (\<lambda>a b. suppresses t (out ! a) (out ! b))"
  have out_map: "out = map (\<lambda>i. object_list ! i) P"
    unfolding out_def non_max_suppression_fast_greedy select_enumerated_nth P_def S_def D_def n_def
    by (rule refl)
  have len_out: "length out = m" by (simp add: out_map m_def)
  have P_lt: "P ! a < n" if "a < m" for a
  proof -
    from that have "P ! a \<in> set P" by (simp add: m_def)
    then show ?thesis by (simp add: P_def)
  qed
  have out_nth: "out ! a = object_list ! (P ! a)" if "a < m" for a
    using that by (simp add: out_map m_def)
  have keys: "sort_keys out ! a = sort_keys object_list ! (P ! a)" if "a < m" for a
    using that by (simp add: sort_keys_nth len_out out_nth P_lt [unfolded n_def])
  have "length (sort_keys out) = m" by (simp add: sort_keys_def len_out)
  then have "stable_argsort (sort_keys out) = sort_key (\<lambda>a. sort_keys out ! a) [0..<m]"
    by (simp only: stable_argsort_def)
  also have "\<dots> = sort_key (\<lambda>a. sort_keys object_list ! (P ! a)) [0..<m]"
    by (rule sort_key_cong_set) (simp add: keys)
  finally have "map (\<lambda>a. P ! a) (stable_argsort (sort_keys out))
        = map (\<lambda>a. P ! a) (sort_key (\<lambda>a. sort_keys object_list ! (P ! a)) [0..<m])"
    by (rule arg_cong)
  also have "\<dots> = sort_key (\<lambda>i. sort_keys object_list ! i) (map (\<lambda>a. P ! a) [0..<m])"
    by (rule sort_key_map [of "\<lambda>a. P ! a" "\<lambda>i. sort_keys object_list ! i" "[0..<m]"])
  also have "map (\<lambda>a. P ! a) [0..<m] = P" by (simp add: m_def map_nth)
  also have "sort_key (\<lambda>i. sort_keys object_list ! i) P
        = filter (\<lambda>i. i \<in> set S) (stable_argsort (sort_keys object_list))"
  proof -
    have "length (sort_keys object_list) = n" by (simp add: sort_keys_def n_def)
    then show ?thesis by (simp only: P_def stable_argsort_def filter_sort)
  qed
  finally have "rev (map (\<lambda>a. P ! a) (stable_argsort (sort_keys out)))
        = rev (filter (\<lambda>i. i \<in> set S) (stable_argsort (sort_keys object_list)))"
    by (rule arg_cong)
  then have "map (\<lambda>a. P ! a) (bottom_first stable_argsort out)
        = filter (\<lambda>i. i \<in> set S) (bottom_first stable_argsort object_list)"
    by (simp only: bottom_first_def rev_map rev_filter)
  also have "\<dots> = S"
  proof (rule subseq_filter_member)
    show "subseq S (bottom_first stable_argsort object_list)" unfolding S_def by (rule greedy_keep_subseq)
    show "distinct (bottom_first stable_argsort object_list)" by (simp add: bottom_first_perm)
  qed
  finally have map_order: "map (\<lambda>a. P ! a) (bottom_first stable_argsort out) = S" .
  have "sorted_wrt (\<lambda>i j. \<not> D i j) S" unfolding S_def by (rule greedy_keep_pairwise)
  then have pw: "sorted_wrt (\<lambda>a b. \<not> D (P ! a) (P ! b)) (bottom_first stable_argsort out)"
    by (simp only: map_order [symmetric] sorted_wrt_map)
  have in_range: "a < m" if "a \<in> set (bottom_first stable_argsort out)" for a
    using that by (simp add: bottom_first_perm len_out)
  have "sorted_wrt (\<lambda>a b. \<not> D2 a b) (bottom_first stable_argsort out)"
  proof (rule sorted_wrt_mono_rel [OF _ pw])
    fix a b assume "a \<in> set (bottom_first stable_argsort out)" "b \<in> set (bottom_first stable_argsort out)"
      and "\<not> D (P ! a) (P ! b)"
    then show "\<not> D2 a b" by (simp add: D2_def D_def out_nth in_range)
  qed
  then have "greedy_keep D2 (bottom_first stable_argsort out) = bottom_first stable_argsort out"
    by (rule greedy_keep_all)
  then have "non_max_suppression_fast stable_argsort out t =
      select_enumerated (\<lambda>i. i \<in> set (bottom_first stable_argsort out)) out"
    by (simp only: non_max_suppression_fast_greedy D2_def)
  also have "\<dots> = out"
    by (rule select_enumerated_all) (simp add: bottom_first_perm)
  finally show ?thesis unfolding out_def .
qed

section \<open>The pairwise methods compute the pinhole formula\<close>

lemma two_points_pinhole:
  assumes "h1 \<noteq> 0" "h2 \<noteq> 0"
  shows "calculate_distance_of_two_points_of_boxes (x1, y1, h1) (x2, y2, h2)
         = Inr (pinhole (x1, y1, h1) (x2, y2, h2))"
  using assms by (simp add: calculate_distance_of_two_points_of_boxes_def pinhole_def Let_def)

lemma diff_mult_neg:
  fixes a b K :: real
  shows "(b - a) * K = - ((a - b) * K)"
  by (simp add: left_diff_distrib)

lemma scaled_square_sym:
  fixes a b k c :: real
  shows "((b - a) * k * c / 2)\<^sup>2 = ((a - b) * k * c / 2)\<^sup>2"
proof -
  have "(b - a) * k * c / 2 = (b - a) * (k * c / 2)" by simp
  also have "\<dots> = - ((a - b) * (k * c / 2))" by (rule diff_mult_neg)
  also have "(a - b) * (k * c / 2) = (a - b) * k * c / 2" by simp
  finally show ?thesis by (simp only: power2_minus)
qed

lemma pinhole_sym: "pinhole (x1, y1, h1) (x2, y2, h2) = pinhole (x2, y2, h2) (x1, y1, h1)"
proof -
  have c: "1 / h2 + 1 / h1 = 1 / h1 + 1 / h2" by (rule add.commute)
  show ?thesis unfolding pinhole_def prod.case c
    by (simp only: scaled_square_sym [of x2 x1] scaled_square_sym [of y2 y1])
qed

lemma center_distance_value:
  assumes "q3 (centroidReal a) \<noteq> 0" "q3 (centroidReal b) \<noteq> 0"
  shows "center_distance a b = Inr (center_value a b)"
  unfolding center_distance_def center_value_def Let_def
  by (rule two_points_pinhole [OF assms])

lemma four_corner_distance_value:
  assumes "q3 (centroidReal a) \<noteq> 0" "q3 (centroidReal b) \<noteq> 0"
  shows "four_corner_distance a b = Inr (four_corner_value a b)"
  unfolding four_corner_distance_def four_corner_value_def Let_def
  by (simp only: two_points_pinhole [OF assms] sum.case)

lemma center_value_sym: "center_value a b = center_value b a"
  unfolding center_value_def by (rule pinhole_sym)

lemma four_corner_value_sym: "four_corner_value a b = four_corner_value b a"
  unfolding four_corner_value_def
  by (simp only: pinhole_sym [of _ _ "q3 (centroidReal a)" _ _ "q3 (centroidReal b)"])

lemma pair_value_sym: "pair_value dist_method a b = pair_value dist_method b a"
  unfolding pair_value_def by (simp only: four_corner_value_sym [of a b] center_value_sym [of a b])

section \<open>The loops build the table of pairwise values\<close>

lemma distance_row_loop_map:
  assumes "\<And>j l. j \<in> set js \<Longrightarrow> box_distance_step dist_method nn_out i j l = Inr (f j)"
  shows "\<exists>l'. distance_row_loop dist_method nn_out i js l distance_row
              = Inr (l', distance_row @ map f js)"
  using assms
proof (induction js arbitrary: l distance_row)
  case Nil
  show ?case by simp
next
  case (Cons j js)
  have step: "box_distance_step dist_method nn_out i j l = Inr (f j)"
    by (rule Cons.prems) simp
  have "\<exists>l'. distance_row_loop dist_method nn_out i js (Some (f j)) (distance_row @ [f j])
              = Inr (l', (distance_row @ [f j]) @ map f js)"
    by (rule Cons.IH) (simp add: Cons.prems)
  then show ?case by (simp add: step)
qed

lemma distances_loop_map:
  assumes "\<And>i j l. i \<in> set is \<Longrightarrow> j < length nn_out \<Longrightarrow>
             box_distance_step dist_method nn_out i j l = Inr (f i j)"
  shows "distances_loop dist_method nn_out is l distances
         = Inr (distances @ map (\<lambda>i. map (f i) [0..<length nn_out]) is)"
  using assms
proof (induction "is" arbitrary: l distances)
  case Nil
  show ?case by simp
next
  case (Cons i "is")
  have "\<exists>l'. distance_row_loop dist_method nn_out i [0..<length nn_out] l []
              = Inr (l', [] @ map (f i) [0..<length nn_out])"
    by (rule distance_row_loop_map) (simp add: Cons.prems)
  then obtain l' where row:
    "distance_row_loop dist_method nn_out i [0..<length nn_out] l []
       = Inr (l', map (f i) [0..<length nn_out])"
    by auto
  have "distances_loop dist_method nn_out is l' (distances @ [map (f i) [0..<length nn_out]])
        = Inr ((distances @ [map (f i) [0..<length nn_out]])
               @ map (\<lambda>i. map (f i) [0..<length nn_out]) is)"
    by (rule Cons.IH) (simp add: Cons.prems)
  then show ?case by (simp add: row)
qed

lemma box_distance_step_value:
  assumes which: "dist_method = ''FourCornerPointsDistance'' \<or> dist_method = ''CenterPointsDistance''"
    and nonzero: "list_all (\<lambda>obj. q3 (centroidReal obj) \<noteq> 0) nn_out"
    and "i < length nn_out" "j < length nn_out"
  shows "box_distance_step dist_method nn_out i j l
         = Inr (if i = j then 0 else pair_value dist_method (nn_out ! i) (nn_out ! j))"
proof -
  from nonzero assms(3,4) have hi: "q3 (centroidReal (nn_out ! i)) \<noteq> 0"
    and hj: "q3 (centroidReal (nn_out ! j)) \<noteq> 0"
    by (simp_all add: list_all_length)
  from which show ?thesis
    unfolding box_distance_step_def pair_value_def
    by (auto simp: center_distance_value [OF hi hj] four_corner_distance_value [OF hi hj])
qed

lemma pairwise_methods_matrix:
  assumes which: "dist_method = ''FourCornerPointsDistance'' \<or> dist_method = ''CenterPointsDistance''"
    and nonzero: "list_all (\<lambda>obj. q3 (centroidReal obj) \<noteq> 0) nn_out"
  shows "calculate_box_distances dist_method h_inv nn_out
         = Inr (map (\<lambda>i. map (\<lambda>j. if i = j then 0
                                 else pair_value dist_method (nn_out ! i) (nn_out ! j))
                          [0..<length nn_out])
                 [0..<length nn_out])"
proof -
  from which have "dist_method \<noteq> ''CalibratedDistance''" by auto
  then have "calculate_box_distances dist_method h_inv nn_out
             = distances_loop dist_method nn_out [0..<length nn_out] None []"
    by (simp add: calculate_box_distances_def)
  also have "\<dots> = Inr ([] @ map (\<lambda>i. map (\<lambda>j. if i = j then 0
                                 else pair_value dist_method (nn_out ! i) (nn_out ! j))
                          [0..<length nn_out])
                 [0..<length nn_out])"
    by (rule distances_loop_map) (simp add: box_distance_step_value [OF which nonzero])
  finally show ?thesis by simp
qed


section \<open>The calibrated method computes projected Euclidean distances\<close>

lemma transform_value:
  assumes "homogeneous_coordinate h_inv (truncated_floor_point obj) \<noteq> 0"
  shows "transform_to_world_coordinate h_inv obj
         = Inr (project h_inv (truncated_floor_point obj))"
proof -
  obtain a b c d e f g k l where h: "h_inv = ((a, b, c), (d, e, f), (g, k, l))"
    by (metis prod_cases3)
  have fp: "floor_point obj = truncated_floor_point obj"
    by (simp add: floor_point_def truncated_floor_point_def py_int_def Let_def)
  obtain x y z where p: "truncated_floor_point obj = (x, y, z)"
    by (metis prod_cases3)
  from assms have "g * x + k * y + l * z \<noteq> 0"
    by (simp add: homogeneous_coordinate_def h p)
  then show ?thesis
    by (simp add: transform_to_world_coordinate_def matmul_def project_def fp h p Let_def)
qed

lemma collect_map:
  "list_all (\<lambda>x. g x = Inr (g' x)) xs \<Longrightarrow> collect (map g xs) = Inr (map g' xs)"
  by (induction xs) simp_all

lemma calibrated_matrix:
  assumes "list_all (\<lambda>obj. homogeneous_coordinate h_inv (truncated_floor_point obj) \<noteq> 0) nn_out"
  shows "calculate_box_distances ''CalibratedDistance'' h_inv nn_out
         = Inr (cdist (map (\<lambda>obj. project h_inv (truncated_floor_point obj)) nn_out)
                      (map (\<lambda>obj. project h_inv (truncated_floor_point obj)) nn_out))"
proof -
  from assms have
    "list_all (\<lambda>obj. transform_to_world_coordinate h_inv obj
                     = Inr (project h_inv (truncated_floor_point obj))) nn_out"
    by (simp add: list_all_iff transform_value)
  then have "collect (map (transform_to_world_coordinate h_inv) nn_out)
             = Inr (map (\<lambda>obj. project h_inv (truncated_floor_point obj)) nn_out)"
    by (rule collect_map)
  then show ?thesis
    by (simp add: calculate_box_distances_def cdist_def)
qed

lemma euclidean_self: "euclidean u u = 0"
  by (simp add: euclidean_def)

lemma euclidean_sym: "euclidean u v = euclidean v u"
  by (simp add: euclidean_def power2_commute [of "fst u"] power2_commute [of "snd u"])

lemma cdist_table:
  "cdist pts pts = map (\<lambda>i. map (\<lambda>j. euclidean (pts ! i) (pts ! j)) [0..<length pts]) [0..<length pts]"
proof -
  have inner: "map (\<lambda>v. euclidean u v) pts = map (\<lambda>j. euclidean u (pts ! j)) [0..<length pts]" for u
    by (rule nth_equalityI) simp_all
  show ?thesis
    unfolding cdist_def by (rule nth_equalityI) (simp_all add: inner)
qed

lemma homogeneous_identity:
  "homogeneous_coordinate identity_h (truncated_floor_point obj) = 1"
  by (simp add: homogeneous_coordinate_def identity_h_def truncated_floor_point_def Let_def)

section \<open>Tables with a symmetric entry function\<close>

lemma is_distance_matrix_table:
  assumes diag: "\<And>i. i < n \<Longrightarrow> f i i = 0"
    and sym: "\<And>i j. i < n \<Longrightarrow> j < n \<Longrightarrow> f i j = f j i"
  shows "is_distance_matrix n (map (\<lambda>i. map (f i) [0..<n]) [0..<n])"
proof -
  let ?m = "map (\<lambda>i. map (f i) [0..<n]) [0..<n]"
  have ent: "?m ! i ! j = f i j" if "i < n" "j < n" for i j
    using that by simp
  have "length (?m ! i) = n \<and> ?m ! i ! i = 0 \<and> (\<forall>j \<in> set [0..<n]. ?m ! i ! j = ?m ! j ! i)"
    if i: "i \<in> set [0..<n]" for i
  proof (intro conjI ballI)
    from i have i': "i < n" by simp
    then show "length (?m ! i) = n" by simp
    from i' show "?m ! i ! i = 0" by (simp only: ent diag)
    fix j assume "j \<in> set [0..<n]"
    then have j': "j < n" by simp
    have "?m ! i ! j = f i j" using i' j' by (rule ent)
    also have "\<dots> = f j i" using i' j' by (rule sym)
    also have "\<dots> = ?m ! j ! i" using j' i' by (rule ent [symmetric])
    finally show "?m ! i ! j = ?m ! j ! i" .
  qed
  then show ?thesis
    unfolding is_distance_matrix_def list_all_iff by simp
qed

lemma pairwise_matrix_ok:
  assumes which: "dist_method = ''FourCornerPointsDistance'' \<or> dist_method = ''CenterPointsDistance''"
    and nonzero: "list_all (\<lambda>obj. q3 (centroidReal obj) \<noteq> 0) nn_out"
  shows "\<exists>m. calculate_box_distances dist_method h_inv nn_out = Inr m
             \<and> is_distance_matrix (length nn_out) m"
proof -
  let ?f = "\<lambda>i j. if i = j then 0 else pair_value dist_method (nn_out ! i) (nn_out ! j)"
  have "is_distance_matrix (length nn_out)
          (map (\<lambda>i. map (?f i) [0..<length nn_out]) [0..<length nn_out])"
  proof (rule is_distance_matrix_table)
    fix i show "?f i i = 0" by simp
  next
    fix i j
    show "?f i j = ?f j i"
      by (cases "i = j") (simp_all add: pair_value_sym [of dist_method "nn_out ! i"])
  qed
  then show ?thesis
    by (simp only: pairwise_methods_matrix [OF which nonzero, of h_inv]) blast
qed

lemma calibrated_matrix_ok:
  assumes "list_all (\<lambda>obj. homogeneous_coordinate h_inv (truncated_floor_point obj) \<noteq> 0) nn_out"
  shows "\<exists>m. calculate_box_distances ''CalibratedDistance'' h_inv nn_out = Inr m
             \<and> is_distance_matrix (length nn_out) m"
proof -
  let ?pts = "map (\<lambda>obj. project h_inv (truncated_floor_point obj)) nn_out"
  let ?n = "length nn_out"
  have tab: "cdist ?pts ?pts
             = map (\<lambda>i. map (\<lambda>j. euclidean (?pts ! i) (?pts ! j)) [0..<?n]) [0..<?n]"
    using cdist_table [of ?pts] by (simp only: length_map)
  have "is_distance_matrix ?n
          (map (\<lambda>i. map (\<lambda>j. euclidean (?pts ! i) (?pts ! j)) [0..<?n]) [0..<?n])"
  proof (rule is_distance_matrix_table)
    fix i show "euclidean (?pts ! i) (?pts ! i) = 0" by (rule euclidean_self)
  next
    fix i j show "euclidean (?pts ! i) (?pts ! j) = euclidean (?pts ! j) (?pts ! i)"
      by (rule euclidean_sym)
  qed
  then have "is_distance_matrix ?n (cdist ?pts ?pts)"
    by (simp only: tab)
  moreover note calibrated_matrix [OF assms]
  ultimately show ?thesis by blast
qed

lemma empty_matrix: "calculate_box_distances dist_method h_inv [] = Inr []"
  by (simp add: calculate_box_distances_def)

section \<open>Oversized-box rejection is a filter\<close>

text \<open>
  Claim C2. For every list of detections, \<open>ignore_large_boxes\<close> removes exactly the
  detections whose normalised area \<open>w * h\<close> exceeds 0.25 and returns all the others,
  unchanged and in their original relative order: its result is the input list filtered
  by \<open>\<not> w * h > 0.25\<close>.
\<close>

theorem ignore_large_boxes_filter:
  "ignore_large_boxes object_list =
     filter (\<lambda>item. \<not> q2 (centroid item) * q3 (centroid item) > 0.25) object_list"
proof -
  let ?Q = "\<lambda>item. \<not> q2 (centroid item) * q3 (centroid item) > 0.25"
  have "ignore_large_boxes object_list = select_enumerated (\<lambda>i. ?Q (object_list ! i)) object_list"
    unfolding ignore_large_boxes_def
  proof (rule select_enumerated_cong)
    fix i assume "i < length object_list"
    then show "(i \<notin> set (large_boxes object_list)) = ?Q (object_list ! i)"
      unfolding large_boxes_def by simp
  qed
  also have "\<dots> = filter ?Q object_list"
    by (rule select_enumerated_filter)
  finally show ?thesis .
qed

section \<open>Non-maximum suppression keeps the input order\<close>

text \<open>
  Claim C10. For every list of detections and every threshold, the output of
  \<open>non_max_suppression_fast\<close> is a subsequence of its input: the kept detections appear in
  the same relative order as in the input list. This holds whatever the sorting function
  returns.
\<close>

theorem non_max_suppression_fast_subseq:
  "subseq (non_max_suppression_fast np_argsort object_list overlapThresh) object_list"
proof (cases "length object_list = 0")
  case True
  then show ?thesis unfolding non_max_suppression_fast_def by simp
next
  case False
  then show ?thesis unfolding non_max_suppression_fast_def Let_def
    by (simp only: if_False select_enumerated_subseq)
qed

section \<open>Non-maximum suppression: bottom-most first\<close>

lemma example_order: "bottom_first stable_argsort [box_A, box_B] = [1, 0]"
  by (simp add: bottom_first_def stable_argsort_def sort_keys_def box_A_def box_B_def)

lemma example_order_swapped: "bottom_first stable_argsort [box_B, box_A] = [0, 1]"
  by (simp add: bottom_first_def stable_argsort_def sort_keys_def box_A_def box_B_def)

lemma B_suppresses_A: "suppresses 0.3 box_B box_A"
  by (simp add: suppresses_def box_A_def box_B_def Let_def overlap_gt_def box_area_def)

lemma example_stable:
  "non_max_suppression_fast stable_argsort [box_A, box_B] 0.3 = [box_B]"
  unfolding non_max_suppression_fast_greedy example_order
  by (simp add: B_suppresses_A select_enumerated_def)

lemma example_stable_swapped:
  "non_max_suppression_fast stable_argsort [box_B, box_A] 0.3 = [box_B]"
  unfolding non_max_suppression_fast_greedy example_order_swapped
  by (simp add: B_suppresses_A select_enumerated_def)

lemma example_any_sort:
  assumes "ascending_order (sort_keys [box_A, box_B]) (f (sort_keys [box_A, box_B]))"
  shows "non_max_suppression_fast f [box_A, box_B] 0.3 = [box_B]"
proof -
  have "distinct (sort_keys [box_A, box_B])"
    by (simp add: sort_keys_def box_A_def box_B_def)
  then have "f (sort_keys [box_A, box_B]) = stable_argsort (sort_keys [box_A, box_B])"
    using assms by (rule ascending_order_unique)
  then have "non_max_suppression_fast f [box_A, box_B] 0.3
             = non_max_suppression_fast stable_argsort [box_A, box_B] 0.3"
    by (rule non_max_suppression_fast_cong)
  then show ?thesis by (simp only: example_stable)
qed

lemma example_any_sort_swapped:
  assumes "ascending_order (sort_keys [box_B, box_A]) (f (sort_keys [box_B, box_A]))"
  shows "non_max_suppression_fast f [box_B, box_A] 0.3 = [box_B]"
proof -
  have "distinct (sort_keys [box_B, box_A])"
    by (simp add: sort_keys_def box_A_def box_B_def)
  then have "f (sort_keys [box_B, box_A]) = stable_argsort (sort_keys [box_B, box_A])"
    using assms by (rule ascending_order_unique)
  then have "non_max_suppression_fast f [box_B, box_A] 0.3
             = non_max_suppression_fast stable_argsort [box_B, box_A] 0.3"
    by (rule non_max_suppression_fast_cong)
  then show ?thesis by (simp only: example_stable_swapped)
qed

text \<open>
  Claim C3. Let \<open>np.argsort\<close> answer with an ascending order of the keys \<open>cy + h / 2\<close>.
  Then non-maximum suppression visits the detections in descending order of
  \<open>cy + h / 2\<close>: the visiting order, the answer of \<open>np.argsort\<close> read backwards, holds
  every index once and the keys do not increase along it. The output consists of the
  detections that the greedy procedure selects on that order: it keeps the first (the
  bottom-most) undecided detection and drops every undecided detection \<open>b\<close> whose overlap
  with the kept detection \<open>a\<close> exceeds the threshold, where the overlap is the clipped
  intersection \<open>max 0 (xx2 - xx1 + 1) * max 0 (yy2 - yy1 + 1)\<close> of the two boxes divided
  by the area \<open>(h + 1) * (w + 1)\<close> of \<open>b\<close> (a quotient by the area zero is infinite in
  NumPy and exceeds every threshold, unless the intersection is zero as well). For the
  boxes A and B of the example at threshold 0.3, B is kept and A is dropped, in whichever
  order the two are given.
\<close>

theorem non_max_suppression_fast_bottom_first:
  assumes "ascending_order
             (map (\<lambda>item. q1 (centroid item) + q3 (centroid item) / 2) object_list)
             (np_argsort (map (\<lambda>item. q1 (centroid item) + q3 (centroid item) / 2) object_list))"
  shows "(let order =
            rev (np_argsort
                  (map (\<lambda>item. q1 (centroid item) + q3 (centroid item) / 2) object_list))
          in set order = {0..<length object_list}
           \<and> distinct order
           \<and> sorted_wrt
                (\<lambda>i j. q1 (centroid (object_list ! i)) + q3 (centroid (object_list ! i)) / 2
                        \<ge> q1 (centroid (object_list ! j)) + q3 (centroid (object_list ! j)) / 2)
                order
           \<and> non_max_suppression_fast np_argsort object_list t =
               map (\<lambda>i. object_list ! i)
                 (filter
                    (\<lambda>i. i \<in> set (greedy_keep
                       (\<lambda>i j.
                          let a = object_list ! i;
                              b = object_list ! j;
                              w = max 0 (min (q2 (bbox a)) (q2 (bbox b))
                                         - max (q0 (bbox a)) (q0 (bbox b)) + 1);
                              h = max 0 (min (q3 (bbox a)) (q3 (bbox b))
                                         - max (q1 (bbox a)) (q1 (bbox b)) + 1);
                              area = (q3 (centroid b) + 1) * (q2 (centroid b) + 1)
                          in if area = 0 then w * h > 0 else w * h / area > t)
                       order))
                    [0..<length object_list]))
         \<and> (ascending_order [0.2 + 0.2 / 2, 0.22 + 0.2 / 2]
               (np_argsort [0.2 + 0.2 / 2, 0.22 + 0.2 / 2])
              \<longrightarrow> non_max_suppression_fast np_argsort [box_A, box_B] 0.3 = [box_B])
         \<and> (ascending_order [0.22 + 0.2 / 2, 0.2 + 0.2 / 2]
               (np_argsort [0.22 + 0.2 / 2, 0.2 + 0.2 / 2])
              \<longrightarrow> non_max_suppression_fast np_argsort [box_B, box_A] 0.3 = [box_B])"
proof -
  let ?K = "\<lambda>item. q1 (centroid item) + q3 (centroid item) / 2"
  let ?idxs = "np_argsort (map ?K object_list)"
  let ?D = "\<lambda>i j. suppresses t (object_list ! i) (object_list ! j)"
  have sk: "sort_keys object_list = map ?K object_list" by (simp add: sort_keys_def)
  have bf: "bottom_first np_argsort object_list = rev ?idxs"
    by (simp only: bottom_first_def sk)
  have si: "set ?idxs = {0..<length object_list}"
    using ascending_order_perm(1) [OF assms] by simp
  have di: "distinct ?idxs" using assms by (rule ascending_order_perm(2))
  have "sorted (map (\<lambda>i. map ?K object_list ! i) ?idxs)"
    using assms by (rule ascending_order_sorted)
  then have "sorted_wrt (\<lambda>i j. map ?K object_list ! i \<le> map ?K object_list ! j) ?idxs"
    by (simp only: sorted_map)
  then have "sorted_wrt (\<lambda>i j. ?K (object_list ! i) \<le> ?K (object_list ! j)) ?idxs"
  proof (rule sorted_wrt_mono_rel [rotated])
    fix i j assume "i \<in> set ?idxs" "j \<in> set ?idxs"
      and "map ?K object_list ! i \<le> map ?K object_list ! j"
    then show "?K (object_list ! i) \<le> ?K (object_list ! j)" by (simp add: si)
  qed
  then have desc: "sorted_wrt (\<lambda>i j. ?K (object_list ! i) \<ge> ?K (object_list ! j)) (rev ?idxs)"
    by (simp only: sorted_wrt_rev)
  have out: "non_max_suppression_fast np_argsort object_list t =
          map (\<lambda>i. object_list ! i)
            (filter (\<lambda>i. i \<in> set (greedy_keep ?D (rev ?idxs))) [0..<length object_list])"
    by (simp only: non_max_suppression_fast_greedy select_enumerated_nth bf)
  have ab: "sort_keys [box_A, box_B] = [0.2 + 0.2 / 2, 0.22 + 0.2 / 2]"
    by (simp add: sort_keys_def box_A_def box_B_def)
  have ba: "sort_keys [box_B, box_A] = [0.22 + 0.2 / 2, 0.2 + 0.2 / 2]"
    by (simp add: sort_keys_def box_A_def box_B_def)
  have ex1: "ascending_order [0.2 + 0.2 / 2, 0.22 + 0.2 / 2]
               (np_argsort [0.2 + 0.2 / 2, 0.22 + 0.2 / 2])
             \<longrightarrow> non_max_suppression_fast np_argsort [box_A, box_B] 0.3 = [box_B]"
    using example_any_sort [of np_argsort] by (simp only: ab) blast
  have ex2: "ascending_order [0.22 + 0.2 / 2, 0.2 + 0.2 / 2]
               (np_argsort [0.22 + 0.2 / 2, 0.2 + 0.2 / 2])
             \<longrightarrow> non_max_suppression_fast np_argsort [box_B, box_A] 0.3 = [box_B]"
    using example_any_sort_swapped [of np_argsort] by (simp only: ba) blast
  from si di desc out ex1 ex2 show ?thesis
    unfolding Let_def suppresses_explicit by (simp only: set_rev distinct_rev simp_thms)
qed

theorem non_max_suppression_fast_bottom_first_witness:
  "non_max_suppression_fast stable_argsort [box_A, box_B] 0.3 = [box_B]
   \<and> non_max_suppression_fast stable_argsort [box_B, box_A] 0.3 = [box_B]"
  using non_max_suppression_fast_bottom_first [of "[box_A, box_B]" stable_argsort "0.3"]
  by (simp add: ascending_order_def stable_argsort_def box_A_def box_B_def)

section \<open>Running non-maximum suppression twice\<close>

lemma tied_keys: "sort_keys tied_boxes = [1, 1, 0.75, 0.875]"
  by (simp add: sort_keys_def tied_boxes_def tied_0_def tied_1_def inner_2_def inner_3_def
      normalised_box_def)

lemma tied_pair_keys: "sort_keys [tied_0, tied_1] = [1, 1]"
  by (simp add: sort_keys_def tied_0_def tied_1_def normalised_box_def)

lemma tied_order: "bottom_first tie_reversing_argsort tied_boxes = [0, 1, 3, 2]"
  by (simp add: bottom_first_def tied_keys tie_reversing_argsort_def)

lemma tied_pair_order: "bottom_first tie_reversing_argsort [tied_0, tied_1] = [1, 0]"
  by (simp add: bottom_first_def tied_pair_keys tie_reversing_argsort_def stable_argsort_def)

lemma tied_suppresses:
  "\<not> suppresses (1 / 2) tied_0 tied_1" "suppresses (1 / 2) tied_1 tied_0"
  "\<not> suppresses (1 / 2) tied_0 inner_2" "\<not> suppresses (1 / 2) tied_0 inner_3"
  "suppresses (1 / 2) tied_1 inner_2" "suppresses (1 / 2) tied_1 inner_3"
  by (simp_all add: suppresses_def overlap_gt_def box_area_def Let_def
      tied_0_def tied_1_def inner_2_def inner_3_def normalised_box_def)

lemma tied_first_run:
  "non_max_suppression_fast tie_reversing_argsort tied_boxes 0.5 = [tied_0, tied_1]"
  unfolding non_max_suppression_fast_greedy tied_order
  by (simp add: tied_boxes_def tied_suppresses select_enumerated_def)

lemma tied_second_run:
  "non_max_suppression_fast tie_reversing_argsort [tied_0, tied_1] 0.5 = [tied_1]"
  unfolding non_max_suppression_fast_greedy tied_pair_order
  by (simp add: tied_suppresses select_enumerated_def)

lemma tied_differ: "tied_0 \<noteq> tied_1"
  by (simp add: tied_0_def tied_1_def normalised_box_def)

text \<open>
  The four boxes at threshold 0.5, with a sorting function that returns the tied indices
  of the four boxes in the order 1, 0 and those of the two survivors in the order 0, 1:
  the first run keeps both tied boxes, the second run drops the first of them.
\<close>

theorem tied_keys_counterexample:
  "ascending_order (sort_keys tied_boxes) (tie_reversing_argsort (sort_keys tied_boxes))
   \<and> ascending_order (sort_keys [tied_0, tied_1])
        (tie_reversing_argsort (sort_keys [tied_0, tied_1]))
   \<and> non_max_suppression_fast tie_reversing_argsort tied_boxes 0.5 = [tied_0, tied_1]
   \<and> non_max_suppression_fast tie_reversing_argsort
        (non_max_suppression_fast tie_reversing_argsort tied_boxes 0.5) 0.5 = [tied_1]
   \<and> set (non_max_suppression_fast tie_reversing_argsort
            (non_max_suppression_fast tie_reversing_argsort tied_boxes 0.5) 0.5)
       \<noteq> set (non_max_suppression_fast tie_reversing_argsort tied_boxes 0.5)"
proof -
  have "ascending_order (sort_keys tied_boxes) (tie_reversing_argsort (sort_keys tied_boxes))"
    by (simp add: tied_keys ascending_order_def tie_reversing_argsort_def)
  moreover have "ascending_order (sort_keys [tied_0, tied_1])
        (tie_reversing_argsort (sort_keys [tied_0, tied_1]))"
    by (simp add: tied_pair_keys ascending_order_def tie_reversing_argsort_def stable_argsort_def)
  moreover have "set [tied_1] \<noteq> set [tied_0, tied_1]"
    using tied_differ by auto
  ultimately show ?thesis
    by (simp only: tied_first_run tied_second_run simp_thms)
qed

text \<open>
  Claim C4, for lists without ties. Let the keys \<open>cy + h / 2\<close> of the detections be
  pairwise different, and let \<open>np.argsort\<close> answer with an ascending order both on the
  keys of the list and on the keys of the output. Then applying
  \<open>non_max_suppression_fast\<close> to its own output with the same threshold returns that
  output again (the same list, hence the same set of detections).
\<close>

theorem non_max_suppression_fast_idempotent:
  assumes "distinct (map (\<lambda>item. q1 (centroid item) + q3 (centroid item) / 2) object_list)"
    and "ascending_order
           (map (\<lambda>item. q1 (centroid item) + q3 (centroid item) / 2) object_list)
           (np_argsort (map (\<lambda>item. q1 (centroid item) + q3 (centroid item) / 2) object_list))"
    and "ascending_order
           (map (\<lambda>item. q1 (centroid item) + q3 (centroid item) / 2)
              (non_max_suppression_fast np_argsort object_list t))
           (np_argsort (map (\<lambda>item. q1 (centroid item) + q3 (centroid item) / 2)
              (non_max_suppression_fast np_argsort object_list t)))"
  shows "non_max_suppression_fast np_argsort (non_max_suppression_fast np_argsort object_list t) t =
           non_max_suppression_fast np_argsort object_list t"
proof -
  let ?out = "non_max_suppression_fast np_argsort object_list t"
  have sk: "sort_keys xs = map (\<lambda>item. q1 (centroid item) + q3 (centroid item) / 2) xs" for xs
    by (simp add: sort_keys_def)
  have d1: "distinct (sort_keys object_list)" using assms(1) by (simp only: sk)
  have a1: "ascending_order (sort_keys object_list) (np_argsort (sort_keys object_list))"
    using assms(2) by (simp only: sk)
  have a2: "ascending_order (sort_keys ?out) (np_argsort (sort_keys ?out))"
    using assms(3) by (simp only: sk)
  have "np_argsort (sort_keys object_list) = stable_argsort (sort_keys object_list)"
    using d1 a1 by (rule ascending_order_unique)
  then have first: "?out = non_max_suppression_fast stable_argsort object_list t"
    by (rule non_max_suppression_fast_cong)
  have "subseq ?out object_list"
    unfolding non_max_suppression_fast_greedy select_enumerated_nth
    by (simp only: select_enumerated_nth [symmetric] select_enumerated_subseq)
  then have "subseq (sort_keys ?out) (sort_keys object_list)" by (rule sort_keys_subseq)
  then have d2: "distinct (sort_keys ?out)" using d1 by (rule subseq_keeps_distinct)
  have "np_argsort (sort_keys ?out) = stable_argsort (sort_keys ?out)"
    using d2 a2 by (rule ascending_order_unique)
  then have "non_max_suppression_fast np_argsort ?out t
             = non_max_suppression_fast stable_argsort ?out t"
    by (rule non_max_suppression_fast_cong)
  also have "\<dots> = non_max_suppression_fast stable_argsort
                     (non_max_suppression_fast stable_argsort object_list t) t"
    by (simp only: first)
  also have "\<dots> = non_max_suppression_fast stable_argsort object_list t"
    by (rule stable_argsort_idempotent)
  also have "\<dots> = ?out" by (simp only: first)
  finally show ?thesis .
qed

theorem non_max_suppression_fast_idempotent_witness:
  "non_max_suppression_fast stable_argsort
     (non_max_suppression_fast stable_argsort [box_A, box_B] 0.3) 0.3
   = non_max_suppression_fast stable_argsort [box_A, box_B] 0.3"
proof -
  have h1: "distinct (map (\<lambda>item. q1 (centroid item) + q3 (centroid item) / 2) [box_A, box_B])"
    by (simp add: box_A_def box_B_def)
  have h2: "ascending_order
           (map (\<lambda>item. q1 (centroid item) + q3 (centroid item) / 2) [box_A, box_B])
           (stable_argsort
              (map (\<lambda>item. q1 (centroid item) + q3 (centroid item) / 2) [box_A, box_B]))"
    by (simp add: ascending_order_def stable_argsort_def box_A_def box_B_def)
  have h3: "ascending_order
           (map (\<lambda>item. q1 (centroid item) + q3 (centroid item) / 2)
              (non_max_suppression_fast stable_argsort [box_A, box_B] 0.3))
           (stable_argsort (map (\<lambda>item. q1 (centroid item) + q3 (centroid item) / 2)
              (non_max_suppression_fast stable_argsort [box_A, box_B] 0.3)))"
    by (simp add: example_stable ascending_order_def stable_argsort_def)
  from non_max_suppression_fast_idempotent [OF h1 h2 h3] show ?thesis .
qed

section \<open>The distance matrix is symmetric with zero diagonal\<close>

text \<open>
  Two boxes of pixel height zero under \<open>CenterPointsDistance\<close>: the call divides by zero
  and returns no matrix.
\<close>

theorem zero_height_counterexample:
  "calculate_box_distances ''CenterPointsDistance'' identity_h flat_pair = Inl ZeroDivisionError"
  by (simp add: calculate_box_distances_def box_distance_step_def center_distance_def
      calculate_distance_of_two_points_of_boxes_def px_box_def flat_pair_def)

text \<open>
  Claim C5, for lists on which no division is a division by zero (\<open>can_divide\<close>). For each
  of the three distance methods and every such list of \<open>N\<close> objects,
  \<open>calculate_box_distances\<close> returns an \<open>N\<close>-by-\<open>N\<close> matrix whose diagonal is zero and
  whose entry \<open>[i][j]\<close> equals its entry \<open>[j][i]\<close>; for the empty list the result is the
  empty matrix and not an error.
\<close>

theorem distance_matrix_symmetric_zero_diagonal:
  assumes "dist_method = ''CalibratedDistance'' \<or> dist_method = ''CenterPointsDistance''
           \<or> dist_method = ''FourCornerPointsDistance''"
    and "can_divide dist_method h_inv nn_out"
  shows "(\<exists>m. calculate_box_distances dist_method h_inv nn_out = Inr m
              \<and> length m = length nn_out
              \<and> (\<forall>i < length nn_out.
                    length (m ! i) = length nn_out
                    \<and> m ! i ! i = 0
                    \<and> (\<forall>j < length nn_out. m ! i ! j = m ! j ! i)))
         \<and> calculate_box_distances dist_method h_inv [] = Inr []"
proof -
  have "\<exists>m. calculate_box_distances dist_method h_inv nn_out = Inr m
             \<and> is_distance_matrix (length nn_out) m"
  proof (cases "dist_method = ''CalibratedDistance''")
    case True
    with assms(2) have
      "list_all (\<lambda>obj. homogeneous_coordinate h_inv (truncated_floor_point obj) \<noteq> 0) nn_out"
      by (simp add: can_divide_def)
    then show ?thesis
      unfolding True by (rule calibrated_matrix_ok)
  next
    case False
    with assms(1) have which:
      "dist_method = ''FourCornerPointsDistance'' \<or> dist_method = ''CenterPointsDistance''"
      by blast
    from False assms(2) have "list_all (\<lambda>obj. q3 (centroidReal obj) \<noteq> 0) nn_out"
      by (simp add: can_divide_def)
    with which show ?thesis by (rule pairwise_matrix_ok)
  qed
  then obtain m where m: "calculate_box_distances dist_method h_inv nn_out = Inr m"
    and d: "is_distance_matrix (length nn_out) m"
    by blast
  from d have "length m = length nn_out
              \<and> (\<forall>i < length nn_out.
                    length (m ! i) = length nn_out
                    \<and> m ! i ! i = 0
                    \<and> (\<forall>j < length nn_out. m ! i ! j = m ! j ! i))"
    by (simp add: is_distance_matrix_def list_all_iff)
  with m show ?thesis by (simp add: empty_matrix)
qed

theorem distance_matrix_symmetric_zero_diagonal_witness:
  "(\<exists>m. calculate_box_distances ''CalibratedDistance'' identity_h tall_pair = Inr m
         \<and> length m = 2 \<and> m ! 0 ! 0 = 0 \<and> m ! 0 ! 1 = m ! 1 ! 0)
   \<and> (\<exists>m. calculate_box_distances ''CenterPointsDistance'' identity_h tall_pair = Inr m
         \<and> length m = 2 \<and> m ! 0 ! 0 = 0 \<and> m ! 0 ! 1 = m ! 1 ! 0)
   \<and> (\<exists>m. calculate_box_distances ''FourCornerPointsDistance'' identity_h tall_pair = Inr m
         \<and> length m = 2 \<and> m ! 0 ! 0 = 0 \<and> m ! 0 ! 1 = m ! 1 ! 0)"
proof -
  have len: "length tall_pair = 2" by (simp add: tall_pair_def)
  have c1: "can_divide ''CalibratedDistance'' identity_h tall_pair"
    by (simp add: can_divide_def homogeneous_identity tall_pair_def)
  have c2: "can_divide ''CenterPointsDistance'' identity_h tall_pair"
    by (simp add: can_divide_def tall_pair_def px_box_def)
  have c3: "can_divide ''FourCornerPointsDistance'' identity_h tall_pair"
    by (simp add: can_divide_def tall_pair_def px_box_def)
  have pick: "\<exists>m. P m \<and> length m = 2 \<and> m ! 0 ! 0 = 0 \<and> m ! 0 ! 1 = m ! 1 ! 0"
    if "\<exists>m. P m \<and> length m = 2
            \<and> (\<forall>i < 2. length (m ! i) = 2 \<and> m ! i ! i = 0 \<and> (\<forall>j < 2. m ! i ! j = m ! j ! i))"
    for P :: "real list list \<Rightarrow> bool"
  proof -
    from that obtain m where "P m" "length m = 2"
      and all: "\<forall>i < 2. length (m ! i) = 2 \<and> m ! i ! i = 0 \<and> (\<forall>j < 2. m ! i ! j = m ! j ! i)"
      by blast
    from all have "m ! 0 ! 0 = 0 \<and> m ! 0 ! 1 = m ! 1 ! 0" by simp
    with \<open>P m\<close> \<open>length m = 2\<close> show ?thesis by blast
  qed
  have r1: "\<exists>m. calculate_box_distances ''CalibratedDistance'' identity_h tall_pair = Inr m
         \<and> length m = 2 \<and> m ! 0 ! 0 = 0 \<and> m ! 0 ! 1 = m ! 1 ! 0"
    using distance_matrix_symmetric_zero_diagonal [OF _ c1] by (intro pick) (simp add: len)
  have r2: "\<exists>m. calculate_box_distances ''CenterPointsDistance'' identity_h tall_pair = Inr m
         \<and> length m = 2 \<and> m ! 0 ! 0 = 0 \<and> m ! 0 ! 1 = m ! 1 ! 0"
    using distance_matrix_symmetric_zero_diagonal [OF _ c2] by (intro pick) (simp add: len)
  have r3: "\<exists>m. calculate_box_distances ''FourCornerPointsDistance'' identity_h tall_pair = Inr m
         \<and> length m = 2 \<and> m ! 0 ! 0 = 0 \<and> m ! 0 ! 1 = m ! 1 ! 0"
    using distance_matrix_symmetric_zero_diagonal [OF _ c3] by (intro pick) (simp add: len)
  from r1 r2 r3 show ?thesis by blast
qed

section \<open>The entries under \<open>CenterPointsDistance\<close>\<close>



section \<open>The entries under \<open>FourCornerPointsDistance\<close>\<close>



section \<open>The entries under \<open>CalibratedDistance\<close>\<close>

text \<open>
  A box whose bottom centre has the horizontal position 12.5: the source projects the
  point with horizontal position 12, not the point \<open>((x0 + x2) / 2, y1, 1)\<close>.
\<close>

theorem bottom_center_not_truncated_counterexample:
  "transform_to_world_coordinate identity_h odd_box = Inr (12, 40)
   \<and> project identity_h (spec_floor_point odd_box) = (25 / 2, 40)"
  by (simp add: transform_to_world_coordinate_def floor_point_def spec_floor_point_def
      project_def matmul_def identity_h_def odd_box_def px_box_def py_int_def)

text \<open>
  Claim C8, with the truncation the source applies. Under \<open>CalibratedDistance\<close>, the world
  point of an object is the projection through the inverse homography, divided by the
  homogeneous coordinate, of the point \<open>(int ((x0 + x2) / 2), y1, 1)\<close>, where \<open>int\<close>
  truncates towards zero; the matrix entry \<open>[i][j]\<close> is the Euclidean distance between
  the world points of the objects \<open>i\<close> and \<open>j\<close>.
\<close>

theorem calibrated_entry:
  assumes "list_all (\<lambda>obj. homogeneous_coordinate h_inv (truncated_floor_point obj) \<noteq> 0) nn_out"
    and "i < length nn_out" and "j < length nn_out"
  shows "transform_to_world_coordinate h_inv (nn_out ! i)
           = Inr (project h_inv
                   (real_of_int
                      (if 0 \<le> (q0 (bboxReal (nn_out ! i)) + q2 (bboxReal (nn_out ! i))) / 2
                       then \<lfloor>(q0 (bboxReal (nn_out ! i)) + q2 (bboxReal (nn_out ! i))) / 2\<rfloor>
                       else \<lceil>(q0 (bboxReal (nn_out ! i)) + q2 (bboxReal (nn_out ! i))) / 2\<rceil>),
                    q3 (bboxReal (nn_out ! i)), 1))
         \<and> (\<exists>m. calculate_box_distances ''CalibratedDistance'' h_inv nn_out = Inr m \<and>
                m ! i ! j =
                  sqrt ((fst (project h_inv (truncated_floor_point (nn_out ! i)))
                         - fst (project h_inv (truncated_floor_point (nn_out ! j))))\<^sup>2
                      + (snd (project h_inv (truncated_floor_point (nn_out ! i)))
                         - snd (project h_inv (truncated_floor_point (nn_out ! j))))\<^sup>2))"
proof -
  let ?pts = "map (\<lambda>obj. project h_inv (truncated_floor_point obj)) nn_out"
  from assms(1,2) have "homogeneous_coordinate h_inv (truncated_floor_point (nn_out ! i)) \<noteq> 0"
    by (simp add: list_all_length)
  then have "transform_to_world_coordinate h_inv (nn_out ! i)
             = Inr (project h_inv (truncated_floor_point (nn_out ! i)))"
    by (rule transform_value)
  then have first: "transform_to_world_coordinate h_inv (nn_out ! i)
           = Inr (project h_inv
                   (real_of_int
                      (if 0 \<le> (q0 (bboxReal (nn_out ! i)) + q2 (bboxReal (nn_out ! i))) / 2
                       then \<lfloor>(q0 (bboxReal (nn_out ! i)) + q2 (bboxReal (nn_out ! i))) / 2\<rfloor>
                       else \<lceil>(q0 (bboxReal (nn_out ! i)) + q2 (bboxReal (nn_out ! i))) / 2\<rceil>),
                    q3 (bboxReal (nn_out ! i)), 1))"
    by (simp only: truncated_floor_point_def Let_def)
  have m: "calculate_box_distances ''CalibratedDistance'' h_inv nn_out = Inr (cdist ?pts ?pts)"
    using assms(1) by (rule calibrated_matrix)
  have "cdist ?pts ?pts ! i ! j = euclidean (?pts ! i) (?pts ! j)"
    using assms(2,3) by (simp add: cdist_def)
  also have "\<dots> = euclidean (project h_inv (truncated_floor_point (nn_out ! i)))
                            (project h_inv (truncated_floor_point (nn_out ! j)))"
    using assms(2,3) by simp
  finally have "cdist ?pts ?pts ! i ! j =
                  sqrt ((fst (project h_inv (truncated_floor_point (nn_out ! i)))
                         - fst (project h_inv (truncated_floor_point (nn_out ! j))))\<^sup>2
                      + (snd (project h_inv (truncated_floor_point (nn_out ! i)))
                         - snd (project h_inv (truncated_floor_point (nn_out ! j))))\<^sup>2)"
    by (simp only: euclidean_def)
  with first m show ?thesis by blast
qed

theorem calibrated_entry_witness:
  "transform_to_world_coordinate identity_h (far_pair ! 0) = Inr (12, 40)
   \<and> (\<exists>m. calculate_box_distances ''CalibratedDistance'' identity_h far_pair = Inr m
          \<and> m ! 0 ! 1 = 88)"
proof -
  have h: "list_all (\<lambda>obj. homogeneous_coordinate identity_h (truncated_floor_point obj) \<noteq> 0)
             far_pair"
    by (simp add: far_pair_def homogeneous_identity)
  have l: "0 < length far_pair" "1 < length far_pair" by (simp_all add: far_pair_def)
  from calibrated_entry [OF h l] show ?thesis
    by (simp add: far_pair_def px_box_def project_def identity_h_def
        truncated_floor_point_def Let_def)
qed

section \<open>A source that does not open\<close>

text \<open>
  Claim C9. If the video source fails to open, \<open>process_video\<close> returns without entering
  the running state: the flag \<open>running_video\<close> is what it was before the call (false
  after construction and after every completed run), the trace of the call ends with the
  logged failure and holds no event of the running phase (the source is not logged as
  opened, no frame is processed or skipped, nothing is released), and a later start whose
  detector loads behaves exactly as it would have from the state before the failed call.
\<close>

theorem process_video_source_fails:
  assumes "\<not> source_opens env" and "reaches_source env self"
  shows "\<exists>self' trace.
           process_video env self = (Returned, self', trace)
           \<and> running_video self' = running_video self
           \<and> last trace = Log_Failed_To_Load
           \<and> Log_Opened \<notin> set trace
           \<and> Frame_Processed \<notin> set trace
           \<and> Frame_Skipped \<notin> set trace
           \<and> Released \<notin> set trace
           \<and> (\<forall>env2. (\<exists>d. new_detector env2 = Inr d) \<longrightarrow>
                 process_video env2 self' = process_video env2 self)"
proof -
  from assms(2) obtain self1 trace1 where
    l: "load_detector env self = Inr self1" and a: "announce self1 = Inr trace1"
    by (auto simp: reaches_source_def split: sum.splits)
  have pv: "process_video env self = (Returned, self1, trace1 @ [Log_Failed_To_Load])"
    using assms(1) by (simp add: process_video_def l a)
  have run: "running_video self1 = running_video self"
    using l by (auto simp: load_detector_def split: if_splits sum.splits)
  have tr: "set trace1 \<subseteq> {Print_Device, Print_Detector, Print_Image_Size}"
    using a by (auto simp: announce_def split: if_splits detector_attribute.splits)
  have again: "\<exists>self2. load_detector env2 self1 = Inr self2 \<and> load_detector env2 self = Inr self2"
    if "new_detector env2 = Inr d" for env2 d
    using l that by (auto simp: load_detector_def split: if_splits sum.splits)
  have retry: "process_video env2 self1 = process_video env2 self"
    if "\<exists>d. new_detector env2 = Inr d" for env2
  proof -
    from that again [of env2] obtain self2 where
      "load_detector env2 self1 = Inr self2" "load_detector env2 self = Inr self2"
      by blast
    then show ?thesis by (simp add: process_video_def)
  qed
  from tr have "Log_Opened \<notin> set (trace1 @ [Log_Failed_To_Load])"
    and "Frame_Processed \<notin> set (trace1 @ [Log_Failed_To_Load])"
    and "Frame_Skipped \<notin> set (trace1 @ [Log_Failed_To_Load])"
    and "Released \<notin> set (trace1 @ [Log_Failed_To_Load])"
    by auto
  with pv run retry show ?thesis by simp
qed

theorem process_video_source_fails_witness:
  "\<exists>self' trace.
     process_video failing_source (init ''x86'') = (Returned, self', trace)
     \<and> running_video self' = False
     \<and> process_video two_frames self' = process_video two_frames (init ''x86'')"
proof -
  have a: "\<not> source_opens failing_source" by (simp add: failing_source_def)
  have b: "reaches_source failing_source (init ''x86'')"
    by (simp add: reaches_source_def load_detector_def announce_def failing_source_def init_def)
  have c: "\<exists>d. new_detector two_frames = Inr d" by (simp add: two_frames_def)
  from process_video_source_fails [OF a b] obtain self' trace where
    "process_video failing_source (init ''x86'') = (Returned, self', trace)"
    "running_video self' = running_video (init ''x86'')"
    "\<forall>env2. (\<exists>d. new_detector env2 = Inr d) \<longrightarrow>
       process_video env2 self' = process_video env2 (init ''x86'')"
    by blast
  with c show ?thesis by (auto simp: init_def)
qed

section \<open>Restart when the stop command is refused\<close>


end
